theory Spec2Isabelle
  imports Complex_Main "HOL-Library.Sublist"
begin

section \<open>JavaScript strings and arrays\<close>

text \<open>
  A JavaScript string is modelled as a \<^typ>\<open>string\<close>: a list of code units below 256.
  \<open>line.includes(tok)\<close> is the substring test.
\<close>

fun str_includes :: "string \<Rightarrow> string \<Rightarrow> bool" where
  "str_includes [] tok = (tok = [])"
| "str_includes (c # cs) tok = (prefix tok (c # cs) \<or> str_includes cs tok)"

text \<open>\<open>s.split(sep)\<close> for a one-character separator: never empty, \<open>''''.split(sep) = ['''']\<close>.\<close>

fun js_split :: "char \<Rightarrow> string \<Rightarrow> string list" where
  "js_split sep [] = [[]]"
| "js_split sep (c # cs) =
     (if c = sep then [] # js_split sep cs
      else (case js_split sep cs of [] \<Rightarrow> [[c]] | p # ps \<Rightarrow> (c # p) # ps))"

text \<open>\<open>parts.join(sep)\<close> on an array of strings.\<close>

fun js_join :: "string \<Rightarrow> string list \<Rightarrow> string" where
  "js_join sep [] = []"
| "js_join sep [p] = p"
| "js_join sep (p # q # ps) = p @ sep @ js_join sep (q # ps)"

text \<open>
  \<open>arr.splice(start, deleteCount, ...items)\<close> for \<open>start \<ge> 0\<close>: the start is clamped to the
  length, the delete count to \<open>[0, length - start]\<close>; the array after the call is returned.
\<close>

definition js_splice :: "'a list \<Rightarrow> nat \<Rightarrow> int \<Rightarrow> 'a list \<Rightarrow> 'a list" where
  "js_splice arr start deleteCount items =
     (let len = length arr;
          actualStart = min start len;
          actualDeleteCount = nat (min (max deleteCount 0) (int (len - actualStart)))
      in take actualStart arr @ items @ drop (actualStart + actualDeleteCount) arr)"

section \<open>Regular expressions\<close>

text \<open>
  The fragment of JavaScript regular expressions that \<open>Sync.js\<close> builds: literals, greedy
  \<open>+\<close> and \<open>*\<close> over a character class, capturing groups and a greedy optional
  non-capturing group. \<open>rx_matches\<close> lists every way a sequence matches a prefix of the
  input (the rest of the input and the captures), in the order in which the backtracking
  matcher tries them: the first element is the match JavaScript reports.
\<close>

datatype rx =
    Lit string
  | Plus "char \<Rightarrow> bool"
  | Star "char \<Rightarrow> bool"
  | Grp nat "rx list"
  | Opt "rx list"

type_synonym captures = "nat \<Rightarrow> string option"

fun rx_matches :: "rx list \<Rightarrow> string \<Rightarrow> captures \<Rightarrow> (string \<times> captures) list" where
  "rx_matches [] s c = [(s, c)]"
| "rx_matches (Lit t # rs) s c =
     (if prefix t s then rx_matches rs (drop (length t) s) c else [])"
| "rx_matches (Plus P # rs) s c =
     concat (map (\<lambda>n. rx_matches rs (drop n s) c) (rev [1 ..< Suc (length (takeWhile P s))]))"
| "rx_matches (Star P # rs) s c =
     concat (map (\<lambda>n. rx_matches rs (drop n s) c) (rev [0 ..< Suc (length (takeWhile P s))]))"
| "rx_matches (Grp i body # rs) s c =
     concat (map (\<lambda>(s', c'). rx_matches rs s' (c'(i \<mapsto> take (length s - length s') s)))
                 (rx_matches body s c))"
| "rx_matches (Opt body # rs) s c =
     concat (map (\<lambda>(s', c'). rx_matches rs s' c') (rx_matches body s c)) @ rx_matches rs s c"

text \<open>\<open>line.match(re)\<close> without the global flag: the first match at the leftmost position.\<close>

fun js_match :: "rx list \<Rightarrow> string \<Rightarrow> captures option" where
  "js_match re [] = (case rx_matches re [] (\<lambda>_. None) of [] \<Rightarrow> None | (_, c) # _ \<Rightarrow> Some c)"
| "js_match re (x # xs) =
     (case rx_matches re (x # xs) (\<lambda>_. None) of [] \<Rightarrow> js_match re xs | (_, c) # _ \<Rightarrow> Some c)"

text \<open>\<open>\s\<close> and \<open>.\<close> on code units below 256.\<close>

definition rx_space :: "char \<Rightarrow> bool" where
  "rx_space ch = (of_char ch \<in> {9, 10, 11, 12, 13, 32, 160 :: nat})"

definition rx_nonspace :: "char \<Rightarrow> bool" where
  "rx_nonspace ch = (\<not> rx_space ch)"

definition rx_dot :: "char \<Rightarrow> bool" where
  "rx_dot ch = (of_char ch \<notin> {10, 13 :: nat})"

section \<open>\<open>JSON.parse\<close>\<close>

text \<open>
  The values \<open>JSON.parse\<close> returns. A number keeps the exact value of its literal; a string
  is a list of code units (a \<open>\u\<close> escape can denote any 16-bit unit); an object lists its
  members in the order of the text.
\<close>

datatype jsval =
    JNull
  | JBool bool
  | JNum rat
  | JStr "nat list"
  | JArr "jsval list"
  | JObj "(nat list \<times> jsval) list"

definition json_ws :: "char \<Rightarrow> bool" where
  "json_ws ch = (of_char ch \<in> {9, 10, 13, 32 :: nat})"

definition skip_ws :: "string \<Rightarrow> string" where
  "skip_ws s = dropWhile json_ws s"

definition is_digit :: "char \<Rightarrow> bool" where
  "is_digit ch = (48 \<le> (of_char ch :: nat) \<and> (of_char ch :: nat) \<le> 57)"

definition digits_val :: "string \<Rightarrow> nat" where
  "digits_val ds = foldl (\<lambda>acc d. 10 * acc + (of_char d - 48)) 0 ds"

definition hex_val :: "char \<Rightarrow> nat option" where
  "hex_val ch =
     (let n = (of_char ch :: nat) in
      if 48 \<le> n \<and> n \<le> 57 then Some (n - 48)
      else if 65 \<le> n \<and> n \<le> 70 then Some (n - 55)
      else if 97 \<le> n \<and> n \<le> 102 then Some (n - 87)
      else None)"

text \<open>The character after a backslash, other than \<open>u\<close>, and the code unit it denotes.\<close>

definition json_escape :: "char \<Rightarrow> nat option" where
  "json_escape ch =
     (if ch = CHR 0x22 then Some 34 else if ch = CHR 0x5C then Some 92
      else if ch = CHR ''/'' then Some 47 else if ch = CHR ''b'' then Some 8
      else if ch = CHR ''f'' then Some 12 else if ch = CHR ''n'' then Some 10
      else if ch = CHR ''r'' then Some 13 else if ch = CHR ''t'' then Some 9
      else None)"

text \<open>A string's characters up to its closing quote; the input starts after the opening quote.\<close>

fun json_chars :: "string \<Rightarrow> (nat list \<times> string) option" where
  "json_chars [] = None"
| "json_chars (ch # cs) =
     (if ch = CHR 0x22 then Some ([], cs)
      else if ch = CHR 0x5C then
        (case cs of
           [] \<Rightarrow> None
         | e # r \<Rightarrow>
             if e = CHR ''u'' then
               (case r of
                  h1 # h2 # h3 # h4 # r' \<Rightarrow>
                    (case (hex_val h1, hex_val h2, hex_val h3, hex_val h4) of
                       (Some a, Some b, Some c, Some d) \<Rightarrow>
                         map_option (\<lambda>(us, t). ((((a * 16 + b) * 16 + c) * 16 + d) # us, t))
                           (json_chars r')
                     | _ \<Rightarrow> None)
                | _ \<Rightarrow> None)
             else
               (case json_escape e of
                  None \<Rightarrow> None
                | Some u \<Rightarrow> map_option (\<lambda>(us, t). (u # us, t)) (json_chars r)))
      else if (of_char ch :: nat) < 32 then None
      else map_option (\<lambda>(us, t). (of_char ch # us, t)) (json_chars cs))"

text \<open>
  A number: \<open>-? (0 | [1-9][0-9]*) (. [0-9]+)? ([eE] [+-]? [0-9]+)?\<close>, with its exact value.
\<close>

definition json_int_part :: "string \<Rightarrow> (string \<times> string) option" where
  "json_int_part s =
     (case s of
        [] \<Rightarrow> None
      | d # r \<Rightarrow>
          if d = CHR ''0'' then Some ([d], r)
          else if is_digit d then Some (takeWhile is_digit s, dropWhile is_digit s)
          else None)"

definition json_frac_part :: "string \<Rightarrow> (string \<times> string) option" where
  "json_frac_part s =
     (case s of
        [] \<Rightarrow> Some ([], s)
      | d # r \<Rightarrow>
          if d = CHR ''.'' then
            (if takeWhile is_digit r = [] then None
             else Some (takeWhile is_digit r, dropWhile is_digit r))
          else Some ([], s))"

definition json_exp_part :: "string \<Rightarrow> (int \<times> string) option" where
  "json_exp_part s =
     (case s of
        [] \<Rightarrow> Some (0, s)
      | e # r \<Rightarrow>
          if e = CHR ''e'' \<or> e = CHR ''E'' then
            (let (neg, r1) =
                   (case r of
                      [] \<Rightarrow> (False, r)
                    | g # r' \<Rightarrow>
                        if g = CHR ''-'' then (True, r')
                        else if g = CHR ''+'' then (False, r') else (False, r))
             in if takeWhile is_digit r1 = [] then None
                else Some ((if neg then - 1 else 1) * int (digits_val (takeWhile is_digit r1)),
                           dropWhile is_digit r1))
          else Some (0, s))"

definition json_number :: "string \<Rightarrow> (rat \<times> string) option" where
  "json_number s =
     (let (neg, s1) = (case s of [] \<Rightarrow> (False, s) | g # r \<Rightarrow> if g = CHR ''-'' then (True, r) else (False, s))
      in case json_int_part s1 of
           None \<Rightarrow> None
         | Some (ds, s2) \<Rightarrow>
             (case json_frac_part s2 of
                None \<Rightarrow> None
              | Some (fs, s3) \<Rightarrow>
                  (case json_exp_part s3 of
                     None \<Rightarrow> None
                   | Some (ex, s4) \<Rightarrow>
                       (let m = of_nat (digits_val (ds @ fs)) :: rat;
                            p = ex - int (length fs);
                            q = (if 0 \<le> p then m * 10 ^ nat p else m / 10 ^ nat (- p))
                        in Some (if neg then - q else q, s4)))))"

text \<open>
  A value, the elements of an array after its opening bracket, and the members of an
  object after its opening brace; each starts at a character that is not white space.
  The length tests before the recursive calls on a rest of the input always succeed
  (\<open>parse_guards_hold\<close> below): they make the recursion visibly terminating.
\<close>

function parse_value :: "string \<Rightarrow> (jsval \<times> string) option"
  and parse_elements :: "string \<Rightarrow> (jsval list \<times> string) option"
  and parse_members :: "string \<Rightarrow> ((nat list \<times> jsval) list \<times> string) option"
where
  "parse_value s =
     (case s of
        [] \<Rightarrow> None
      | ch # r \<Rightarrow>
          if ch = CHR ''{'' then
            (case skip_ws r of
               [] \<Rightarrow> None
             | d # r2 \<Rightarrow>
                 if d = CHR ''}'' then Some (JObj [], r2)
                 else map_option (\<lambda>(ms, t). (JObj ms, t)) (parse_members (d # r2)))
          else if ch = CHR ''['' then
            (case skip_ws r of
               [] \<Rightarrow> None
             | d # r2 \<Rightarrow>
                 if d = CHR '']'' then Some (JArr [], r2)
                 else map_option (\<lambda>(vs, t). (JArr vs, t)) (parse_elements (d # r2)))
          else if ch = CHR 0x22 then map_option (\<lambda>(us, t). (JStr us, t)) (json_chars r)
          else if prefix ''true'' s then Some (JBool True, drop 4 s)
          else if prefix ''false'' s then Some (JBool False, drop 5 s)
          else if prefix ''null'' s then Some (JNull, drop 4 s)
          else map_option (\<lambda>(q, t). (JNum q, t)) (json_number s))"
| "parse_elements s =
     (case parse_value s of
        None \<Rightarrow> None
      | Some (v, t) \<Rightarrow>
          (case skip_ws t of
             [] \<Rightarrow> None
           | ch # t2 \<Rightarrow>
               if ch = CHR '']'' then Some ([v], t2)
               else if ch = CHR '','' \<and> length (skip_ws t2) < length s then
                 map_option (\<lambda>(vs, u). (v # vs, u)) (parse_elements (skip_ws t2))
               else None))"
| "parse_members s =
     (case s of
        [] \<Rightarrow> None
      | q # r \<Rightarrow>
          if q \<noteq> CHR 0x22 then None
          else
            (case json_chars r of
               None \<Rightarrow> None
             | Some (k, t) \<Rightarrow>
                 (case skip_ws t of
                    [] \<Rightarrow> None
                  | col # t2 \<Rightarrow>
                      if col \<noteq> CHR '':'' \<or> \<not> length (skip_ws t2) < length s then None
                      else
                        (case parse_value (skip_ws t2) of
                           None \<Rightarrow> None
                         | Some (v, u) \<Rightarrow>
                             (case skip_ws u of
                                [] \<Rightarrow> None
                              | ch # u2 \<Rightarrow>
                                  if ch = CHR ''}'' then Some ([(k, v)], u2)
                                  else if ch = CHR '','' \<and> length (skip_ws u2) < length s then
                                    map_option (\<lambda>(ms, w). ((k, v) # ms, w))
                                      (parse_members (skip_ws u2))
                                  else None)))))"
  by pat_completeness auto
termination
proof (relation "measure (\<lambda>x. case x of Inl s \<Rightarrow> 2 * length s
                                 | Inr (Inl s) \<Rightarrow> 2 * length s + 1
                                 | Inr (Inr s) \<Rightarrow> 2 * length s + 1)", goal_cases)
  case 1
  show ?case by simp
next
  case (2 s ch r d r2)
  have "length (skip_ws r) \<le> length r"
    unfolding skip_ws_def by (rule length_dropWhile_le)
  with 2 show ?case by simp
next
  case (3 s ch r d r2)
  have "length (skip_ws r) \<le> length r"
    unfolding skip_ws_def by (rule length_dropWhile_le)
  with 3 show ?case by simp
qed auto

text \<open>\<open>JSON.parse(text)\<close>: the value, or \<open>None\<close> where it throws a \<open>SyntaxError\<close>.\<close>

definition JSON_parse :: "string \<Rightarrow> jsval option" where
  "JSON_parse s =
     (case parse_value (skip_ws s) of
        None \<Rightarrow> None
      | Some (v, t) \<Rightarrow> if skip_ws t = [] then Some v else None)"

text \<open>
  Truthiness of a parsed value. A number is falsy when its double is zero: when the exact
  value is at most \<open>2\<^sup>-\<^sup>1\<^sup>0\<^sup>7\<^sup>5\<close> in magnitude, half the least positive double.
\<close>

fun js_truthy :: "jsval \<Rightarrow> bool" where
  "js_truthy JNull = False"
| "js_truthy (JBool b) = b"
| "js_truthy (JNum q) = (1 < \<bar>q\<bar> * 2 ^ 1075)"
| "js_truthy (JStr us) = (us \<noteq> [])"
| "js_truthy (JArr vs) = True"
| "js_truthy (JObj ms) = True"

text \<open>
  \<open>v.key\<close> for a key no prototype defines: the last member of that name of an object,
  \<open>undefined\<close> (\<open>None\<close>) for every other value.
\<close>

fun js_get :: "jsval \<Rightarrow> string \<Rightarrow> jsval option" where
  "js_get (JObj ms) k = map_of (rev ms) (map of_char k)"
| "js_get v k = None"

section \<open>The constants of \<open>./common\<close>\<close>

text \<open>
  \<open>Sync.js\<close> imports its marker tokens and the two fence formatters from \<open>./common\<close>, which
  is not among the sources: they are parameters of the model.
\<close>

record common =
  readStart :: string
  readEnd :: string
  writeStart :: string
  writeStartClose :: string
  writeEnd :: string
  markdownCodeTicks :: string
  fmtStartCodeBlock :: "string \<Rightarrow> string"

text \<open>The global feature flags \<open>this.config.features\<close>.\<close>

record features =
  enable_source_link :: bool

datatype js_error = TypeError | SyntaxError string

section \<open>Snippet\<close>

record FilePath =
  name :: string
  directory :: string

text \<open>\<open>ref\<close> is \<open>None\<close> where the JavaScript value is \<open>undefined\<close>.\<close>

record Snippet =
  snippet_id :: string
  ext :: string
  owner :: string
  repo :: string
  ref :: "string option"
  filePath :: FilePath
  lines :: "string list"

definition new_Snippet ::
  "string \<Rightarrow> string \<Rightarrow> string \<Rightarrow> string \<Rightarrow> string option \<Rightarrow> FilePath \<Rightarrow> Snippet" where
  "new_Snippet i e ow rp rf fp =
     \<lparr>snippet_id = i, ext = e, owner = ow, repo = rp, ref = rf, filePath = fp, lines = []\<rparr>"

definition buildPath :: "Snippet \<Rightarrow> string" where
  "buildPath snip =
     (let sourceURLParts = js_split CHR ''/'' (directory (filePath snip))
      in js_join ''/'' (drop 1 sourceURLParts @ [name (filePath snip)]))"

definition buildURL :: "Snippet \<Rightarrow> string" where
  "buildURL snip =
     (let sourceURLParts = js_split CHR ''/'' (directory (filePath snip));
          r = (case ref snip of
                 Some given \<Rightarrow> if given \<noteq> [] then given else ''master''
               | None \<Rightarrow> ''master'')
      in js_join ''/''
           ([''https://github.com'', owner snip, repo snip, ''blob'', r]
            @ drop 1 sourceURLParts @ [name (filePath snip)]))"

definition fmtSourceLink :: "Snippet \<Rightarrow> string" where
  "fmtSourceLink snip = ''['' @ buildPath snip @ ''](''  @ buildURL snip @ '')''"

text \<open>
  \<open>Snippet.fmt\<close> of \<open>Sync.js\<close>, as a call: the array it returns and the Snippet after the
  call. It pushes onto a fresh local array and assigns no field of \<open>this\<close>.
\<close>

definition fmt_call :: "common \<Rightarrow> Snippet \<Rightarrow> bool \<Rightarrow> string list \<times> Snippet" where
  "fmt_call E this flag =
     (let l0 = [];
          l1 = (if flag then l0 @ [fmtSourceLink this] else l0);
          l2 = l1 @ [fmtStartCodeBlock E (ext this)];
          l3 = l2 @ lines this;
          l4 = l3 @ [markdownCodeTicks E]
      in (l4, this))"

definition fmt :: "common \<Rightarrow> Snippet \<Rightarrow> bool \<Rightarrow> string list" where
  "fmt E snip flag = fst (fmt_call E snip flag)"

text \<open>
  \<open>Snippet.fmt\<close> of the TypeScript class (\<open>part_000\<close>): it returns nothing and splices the
  fences and the link into \<open>this.lines\<close>; the result is the Snippet after the call.
\<close>

definition fmt_ts :: "common \<Rightarrow> Snippet \<Rightarrow> bool \<Rightarrow> Snippet" where
  "fmt_ts E this flag =
     (let t1 = this\<lparr>lines := js_splice (lines this) 0 0 [fmtStartCodeBlock E (ext this)]\<rparr>;
          t2 = t1\<lparr>lines := js_splice (lines t1) (length (lines t1)) 0 [markdownCodeTicks E]\<rparr>
      in if flag then t2\<lparr>lines := js_splice (lines t2) 0 0 [fmtSourceLink t2]\<rparr> else t2)"

text \<open>\<open>determineExtension\<close>: the last part of the name split at dots.\<close>

definition determineExtension :: "string \<Rightarrow> string" where
  "determineExtension path = last (js_split CHR ''.'' path)"

section \<open>The marker grammar\<close>

text \<open>
  \<open>escapeStringRegexp\<close> escapes every metacharacter of a token, so a token matches
  literally; \<open>/\s+(\S+)/\<close> and \<open>/\s+(\S+)(?:\s+(.+))?\s*/\<close> follow it.
\<close>

definition readMatchRegexp :: "common \<Rightarrow> rx list" where
  "readMatchRegexp E = [Lit (readStart E), Plus rx_space, Grp 1 [Plus rx_nonspace]]"

definition writeMatchRegexp :: "common \<Rightarrow> rx list" where
  "writeMatchRegexp E =
     [Lit (writeStart E), Plus rx_space, Grp 1 [Plus rx_nonspace],
      Opt [Plus rx_space, Grp 2 [Plus rx_dot]], Star rx_space, Lit (writeStartClose E)]"

text \<open>
  \<open>extractReadID\<close> and \<open>extractWriteIDAndConfig\<close> index the match without a test: on a
  line the expression does not match, \<open>matches\<close> is \<open>null\<close> and \<open>matches[1]\<close> throws a
  \<open>TypeError\<close>. A group that took no part in the match is \<open>undefined\<close> (\<open>None\<close>).
\<close>

definition extractReadID :: "common \<Rightarrow> string \<Rightarrow> js_error + string option" where
  "extractReadID E line =
     (case js_match (readMatchRegexp E) line of
        None \<Rightarrow> Inl TypeError
      | Some matches \<Rightarrow> Inr (matches 1))"

definition extractWriteIDAndConfig ::
  "common \<Rightarrow> string \<Rightarrow> js_error + (string option \<times> jsval option)" where
  "extractWriteIDAndConfig E line =
     (case js_match (writeMatchRegexp E) line of
        None \<Rightarrow> Inl TypeError
      | Some matches \<Rightarrow>
          (case matches 2 of
             None \<Rightarrow> Inr (matches 1, None)
           | Some payload \<Rightarrow>
               if payload = [] then Inr (matches 1, None)
               else (case JSON_parse payload of
                       None \<Rightarrow> Inl (SyntaxError payload)
                     | Some v \<Rightarrow> Inr (matches 1, Some v))))"

section \<open>Extraction\<close>

text \<open>
  The state of the line callback of \<open>extractSnippets\<close> for one source file. A line is
  pushed onto \<open>fileSnips[fileSnipsCount].lines\<close>; where that element is \<open>undefined\<close> the
  access throws a \<open>TypeError\<close>. The identifier of a new Snippet is \<open>matches[1]\<close>, a
  string on every match (\<open>extractReadID_defined\<close> below): the case \<open>Inr None\<close> is there
  to make the function total and is never taken.
\<close>

record extract_state =
  capture :: bool
  fileSnipsCount :: nat
  fileSnips :: "Snippet list"

definition extract_line ::
  "common \<Rightarrow> string \<Rightarrow> string \<Rightarrow> string \<Rightarrow> string option \<Rightarrow> FilePath
   \<Rightarrow> extract_state \<Rightarrow> string \<Rightarrow> js_error + extract_state" where
  "extract_line E e ow rp rf item st line =
     (let st1 = (if str_includes line (readEnd E)
                 then st\<lparr>capture := False, fileSnipsCount := fileSnipsCount st + 1\<rparr> else st)
      in case (if capture st1 then
                 (if fileSnipsCount st1 < length (fileSnips st1) then
                    Inr (st1\<lparr>fileSnips := (fileSnips st1)
                           [fileSnipsCount st1 :=
                              (fileSnips st1 ! fileSnipsCount st1)
                                \<lparr>lines := lines (fileSnips st1 ! fileSnipsCount st1) @ [line]\<rparr>]\<rparr>)
                  else Inl TypeError)
               else Inr st1) of
           Inl err \<Rightarrow> Inl err
         | Inr st2 \<Rightarrow>
             if str_includes line (readStart E) then
               (case extractReadID E line of
                  Inl err \<Rightarrow> Inl err
                | Inr None \<Rightarrow> Inl TypeError
                | Inr (Some i) \<Rightarrow>
                    Inr (st2\<lparr>capture := True,
                             fileSnips := fileSnips st2 @ [new_Snippet i e ow rp rf item]\<rparr>))
             else Inr st2)"

fun extract_lines ::
  "common \<Rightarrow> string \<Rightarrow> string \<Rightarrow> string \<Rightarrow> string option \<Rightarrow> FilePath
   \<Rightarrow> extract_state \<Rightarrow> string list \<Rightarrow> js_error + extract_state" where
  "extract_lines E e ow rp rf item st [] = Inr st"
| "extract_lines E e ow rp rf item st (line # rest) =
     (case extract_line E e ow rp rf item st line of
        Inl err \<Rightarrow> Inl err
      | Inr st' \<Rightarrow> extract_lines E e ow rp rf item st' rest)"

text \<open>
  The body of the loop over \<open>filePaths\<close> in \<open>extractSnippets\<close> for one file \<open>item\<close> whose
  lines are \<open>src\<close>: the Snippets it adds to the result.
\<close>

definition extractFile ::
  "common \<Rightarrow> string \<Rightarrow> string \<Rightarrow> string option \<Rightarrow> FilePath \<Rightarrow> string list
   \<Rightarrow> js_error + Snippet list" where
  "extractFile E ow rp rf item src =
     (case extract_lines E (determineExtension (name item)) ow rp rf item
             \<lparr>capture = False, fileSnipsCount = 0, fileSnips = []\<rparr> src of
        Inl err \<Rightarrow> Inl err
      | Inr st \<Rightarrow> Inr (fileSnips st))"

section \<open>Splice\<close>

record File =
  filename :: string
  fullpath :: string
  file_lines :: "string list"

text \<open>
  The object \<open>config || this.config.features\<close> that \<open>getSplicedFile\<close> hands to
  \<open>spliceFile\<close>, and the truthiness of its \<open>enable_source_link\<close>, which \<open>fmt\<close> tests.
\<close>

datatype config_object = Inline jsval | Global features

definition config_or_features :: "jsval option \<Rightarrow> features \<Rightarrow> config_object" where
  "config_or_features config feats =
     (case config of
        None \<Rightarrow> Global feats
      | Some v \<Rightarrow> if js_truthy v then Inline v else Global feats)"

fun config_enable_source_link :: "config_object \<Rightarrow> bool" where
  "config_enable_source_link (Global feats) = enable_source_link feats"
| "config_enable_source_link (Inline v) =
     (case js_get v ''enable_source_link'' of None \<Rightarrow> False | Some x \<Rightarrow> js_truthy x)"

text \<open>\<open>spliceFile\<close> on the line array: \<open>start\<close> and \<open>end\<close> are 1-based line numbers.\<close>

definition spliceFile ::
  "common \<Rightarrow> nat \<Rightarrow> nat \<Rightarrow> Snippet \<Rightarrow> string list \<Rightarrow> config_object \<Rightarrow> string list" where
  "spliceFile E start endLine snippet flines config =
     (let rmlines = int endLine - int start
      in js_splice flines start (rmlines - 1) (fmt E snippet (config_enable_source_link config)))"

text \<open>The variables of the loop of \<open>getSplicedFile\<close> besides the index and the array.\<close>

record scan_state =
  lookForStop :: bool
  spliceStart :: nat
  config :: "jsval option"

text \<open>The first test of the loop body, on the write-start marker.\<close>

definition scan_start ::
  "common \<Rightarrow> Snippet \<Rightarrow> string \<Rightarrow> nat \<Rightarrow> scan_state \<Rightarrow> js_error + scan_state" where
  "scan_start E snippet line fileLineNumber st =
     (if str_includes line (writeStart E) then
        (case extractWriteIDAndConfig E line of
           Inl err \<Rightarrow> Inl err
         | Inr extracted \<Rightarrow>
             if fst extracted = Some (snippet_id snippet) then
               Inr \<lparr>lookForStop = True, spliceStart = fileLineNumber, config = snd extracted\<rparr>
             else Inr st)
      else Inr st)"

text \<open>
  The loop of \<open>getSplicedFile\<close>. \<open>staticFile\<close>, \<open>dynamicFile\<close> and \<open>file\<close> are one object:
  the iterator \<open>staticFile.lines.entries()\<close> runs over the array that \<open>spliceFile\<close>
  changes in place, and stops when its index reaches the array's current length.
  \<open>fileLineNumber\<close> starts at 1 and grows with the index: it is \<open>idx + 1\<close>. The array
  can grow while the loop runs, so the loop is a partial function: not returning is
  \<open>None\<close>.
\<close>

partial_function (option) scan_lines ::
  "common \<Rightarrow> features \<Rightarrow> Snippet \<Rightarrow> nat \<Rightarrow> scan_state \<Rightarrow> string list
   \<Rightarrow> (js_error + string list) option" where
  "scan_lines E feats snippet idx st flines =
     (if length flines \<le> idx then Some (Inr flines)
      else
        (let line = flines ! idx; fileLineNumber = idx + 1
         in case scan_start E snippet line fileLineNumber st of
              Inl err \<Rightarrow> Some (Inl err)
            | Inr st1 \<Rightarrow>
                if str_includes line (writeEnd E) \<and> lookForStop st1 then
                  scan_lines E feats snippet (idx + 1) (st1\<lparr>lookForStop := False\<rparr>)
                    (spliceFile E (spliceStart st1) fileLineNumber snippet flines
                       (config_or_features (config st1) feats))
                else scan_lines E feats snippet (idx + 1) st1 flines))"

declare scan_lines.simps [code]

text \<open>
  One iteration of that loop, at index \<open>idx\<close> of the current array: the error it throws,
  or the loop variables and the array after it.
\<close>

definition scan_body ::
  "common \<Rightarrow> features \<Rightarrow> Snippet \<Rightarrow> nat \<Rightarrow> scan_state \<Rightarrow> string list
   \<Rightarrow> js_error + scan_state \<times> string list" where
  "scan_body E feats snippet idx st flines =
     (let line = flines ! idx; fileLineNumber = idx + 1
      in case scan_start E snippet line fileLineNumber st of
           Inl err \<Rightarrow> Inl err
         | Inr st1 \<Rightarrow>
             if str_includes line (writeEnd E) \<and> lookForStop st1 then
               Inr (st1\<lparr>lookForStop := False\<rparr>,
                    spliceFile E (spliceStart st1) fileLineNumber snippet flines
                      (config_or_features (config st1) feats))
             else Inr (st1, flines))"

text \<open>
  The loop after its first \<open>k\<close> iterations on the lines \<open>flines\<close>: the loop variables and
  the array with which it goes on to index \<open>k\<close>, or \<open>None\<close> when the loop has ended or
  thrown before. The scan reaches the line at index \<open>k\<close> of that array.
\<close>

fun scan_after ::
  "common \<Rightarrow> features \<Rightarrow> Snippet \<Rightarrow> nat \<Rightarrow> string list
   \<Rightarrow> (scan_state \<times> string list) option" where
  "scan_after E feats snippet 0 flines =
     Some (\<lparr>lookForStop = False, spliceStart = 0, config = None\<rparr>, flines)"
| "scan_after E feats snippet (Suc k) flines =
     (case scan_after E feats snippet k flines of
        None \<Rightarrow> None
      | Some (st, ls) \<Rightarrow>
          if length ls \<le> k then None
          else (case scan_body E feats snippet k st ls of
                  Inl err \<Rightarrow> None
                | Inr reached \<Rightarrow> Some reached))"

definition getSplicedFile ::
  "common \<Rightarrow> features \<Rightarrow> Snippet \<Rightarrow> File \<Rightarrow> (js_error + File) option" where
  "getSplicedFile E feats snippet file =
     (case scan_lines E feats snippet 0
             \<lparr>lookForStop = False, spliceStart = 0, config = None\<rparr> (file_lines file) of
        None \<Rightarrow> None
      | Some (Inl err) \<Rightarrow> Some (Inl err)
      | Some (Inr ls) \<Rightarrow> Some (Inr (file\<lparr>file_lines := ls\<rparr>)))"

text \<open>The inner loop of \<open>spliceSnippets\<close>, over the files, and the outer one, over the Snippets.\<close>

fun splice_files ::
  "common \<Rightarrow> features \<Rightarrow> Snippet \<Rightarrow> File list \<Rightarrow> (js_error + File list) option" where
  "splice_files E feats snippet [] = Some (Inr [])"
| "splice_files E feats snippet (file # files) =
     (case getSplicedFile E feats snippet file of
        None \<Rightarrow> None
      | Some (Inl err) \<Rightarrow> Some (Inl err)
      | Some (Inr file') \<Rightarrow>
          (case splice_files E feats snippet files of
             None \<Rightarrow> None
           | Some (Inl err) \<Rightarrow> Some (Inl err)
           | Some (Inr files') \<Rightarrow> Some (Inr (file' # files'))))"

fun spliceSnippets ::
  "common \<Rightarrow> features \<Rightarrow> Snippet list \<Rightarrow> File list \<Rightarrow> (js_error + File list) option" where
  "spliceSnippets E feats [] files = Some (Inr files)"
| "spliceSnippets E feats (snippet # snippets) files =
     (case splice_files E feats snippet files of
        None \<Rightarrow> None
      | Some (Inl err) \<Rightarrow> Some (Inl err)
      | Some (Inr files') \<Rightarrow> spliceSnippets E feats snippets files')"

section \<open>Clear\<close>

text \<open>The loop of \<open>getClearedFile\<close>: \<open>omit\<close>, the lines pushed so far, the lines to come.\<close>

fun clear_lines :: "common \<Rightarrow> bool \<Rightarrow> string list \<Rightarrow> string list \<Rightarrow> string list" where
  "clear_lines E omit newFileLines [] = newFileLines"
| "clear_lines E omit newFileLines (line # rest) =
     (let omit1 = (if str_includes line (writeEnd E) then False else omit);
          pushed = (if \<not> omit1 then newFileLines @ [line] else newFileLines);
          omit2 = (if str_includes line (writeStart E) then True else omit1)
      in clear_lines E omit2 pushed rest)"

definition getClearedFile :: "common \<Rightarrow> File \<Rightarrow> File" where
  "getClearedFile E file = file\<lparr>file_lines := clear_lines E False [] (file_lines file)\<rparr>"

definition clearSnippets :: "common \<Rightarrow> File list \<Rightarrow> File list" where
  "clearSnippets E files = map (getClearedFile E) files"

section \<open>Files as sequences of regions\<close>

text \<open>
  To state what the operations do to a file, a file is described as a sequence of single
  lines and of blocks: a start marker line, interior lines, an end marker line.
\<close>

datatype seg = Line string | Block string "string list" string

fun seg_lines :: "seg \<Rightarrow> string list" where
  "seg_lines (Line l) = [l]"
| "seg_lines (Block s ints e) = s # ints @ [e]"

definition flat :: "seg list \<Rightarrow> string list" where
  "flat segs = concat (map seg_lines segs)"

text \<open>A block with its interior dropped.\<close>

fun emptied :: "seg \<Rightarrow> seg" where
  "emptied (Line l) = Line l"
| "emptied (Block s ints e) = Block s [] e"

text \<open>
  A target file as \<open>getClearedFile\<close> reads it: a line outside the blocks has no write-start
  token, an interior line no write-end token, and an end marker line has the write-end
  token and no write-start token.
\<close>

fun clear_seg :: "common \<Rightarrow> seg \<Rightarrow> bool" where
  "clear_seg E (Line l) = (\<not> str_includes l (writeStart E))"
| "clear_seg E (Block s ints e) =
     (str_includes s (writeStart E)
      \<and> list_all (\<lambda>l. \<not> str_includes l (writeEnd E)) ints
      \<and> str_includes e (writeEnd E) \<and> \<not> str_includes e (writeStart E))"

text \<open>
  A source file as \<open>extractSnippets\<close> reads it: only a start marker line has the read-start
  token, and \<open>readMatchRegexp\<close> finds an identifier on it; only an end marker line has the
  read-end token.
\<close>

definition read_plain :: "common \<Rightarrow> string \<Rightarrow> bool" where
  "read_plain E l = (\<not> str_includes l (readStart E) \<and> \<not> str_includes l (readEnd E))"

definition read_id :: "common \<Rightarrow> string \<Rightarrow> string option" where
  "read_id E l = (case extractReadID E l of Inl err \<Rightarrow> None | Inr i \<Rightarrow> i)"

fun read_seg :: "common \<Rightarrow> seg \<Rightarrow> bool" where
  "read_seg E (Line l) = read_plain E l"
| "read_seg E (Block s ints e) =
     (str_includes s (readStart E) \<and> \<not> str_includes s (readEnd E) \<and> read_id E s \<noteq> None
      \<and> list_all (read_plain E) ints
      \<and> str_includes e (readEnd E) \<and> \<not> str_includes e (readStart E))"

text \<open>The Snippet a read block stands for, in the file \<open>item\<close> of a repository.\<close>

fun seg_snippets ::
  "common \<Rightarrow> string \<Rightarrow> string \<Rightarrow> string option \<Rightarrow> FilePath \<Rightarrow> seg \<Rightarrow> Snippet list" where
  "seg_snippets E ow rp rf item (Line l) = []"
| "seg_snippets E ow rp rf item (Block s ints e) =
     (case read_id E s of
        None \<Rightarrow> []
      | Some i \<Rightarrow> [(new_Snippet i (determineExtension (name item)) ow rp rf item)\<lparr>lines := ints\<rparr>])"

text \<open>
  What a line means to the scan of \<open>getSplicedFile\<close> for one Snippet: it \<open>passes\<close> when
  the first test of the loop body leaves the state as it is (no write-start token, or an
  identifier that is not the Snippet's), and it \<open>opens\<close> a block when the test records it.
\<close>

definition passes :: "common \<Rightarrow> Snippet \<Rightarrow> string \<Rightarrow> bool" where
  "passes E snippet l =
     (if str_includes l (writeStart E) then
        (case extractWriteIDAndConfig E l of
           Inl err \<Rightarrow> False
         | Inr extracted \<Rightarrow> fst extracted \<noteq> Some (snippet_id snippet))
      else True)"

definition opens :: "common \<Rightarrow> Snippet \<Rightarrow> string \<Rightarrow> jsval option \<Rightarrow> bool" where
  "opens E snippet l cfg =
     (str_includes l (writeStart E)
      \<and> extractWriteIDAndConfig E l = Inr (Some (snippet_id snippet), cfg))"

text \<open>The rendering spliced into a block opened with the inline configuration \<open>cfg\<close>.\<close>

definition rendering :: "common \<Rightarrow> features \<Rightarrow> Snippet \<Rightarrow> jsval option \<Rightarrow> string list" where
  "rendering E feats snippet cfg =
     fmt E snippet (config_enable_source_link (config_or_features cfg feats))"

text \<open>
  A target file as the splice reads it: a line with neither write token is \<open>write_plain\<close>;
  a block starts with a line that has the write-start token, no write-end token and that
  \<open>extractWriteIDAndConfig\<close> parses, holds plain lines, and ends with a line that has the
  write-end token and no write-start token.
\<close>

definition write_plain :: "common \<Rightarrow> string \<Rightarrow> bool" where
  "write_plain E l = (\<not> str_includes l (writeStart E) \<and> \<not> str_includes l (writeEnd E))"

definition write_id :: "common \<Rightarrow> string \<Rightarrow> string option" where
  "write_id E l = (case extractWriteIDAndConfig E l of Inl err \<Rightarrow> None | Inr extracted \<Rightarrow> fst extracted)"

definition write_config :: "common \<Rightarrow> string \<Rightarrow> jsval option" where
  "write_config E l = (case extractWriteIDAndConfig E l of Inl err \<Rightarrow> None | Inr extracted \<Rightarrow> snd extracted)"

fun write_seg :: "common \<Rightarrow> seg \<Rightarrow> bool" where
  "write_seg E (Line l) = (\<not> str_includes l (writeStart E))"
| "write_seg E (Block s ints e) =
     (str_includes s (writeStart E) \<and> \<not> str_includes s (writeEnd E)
      \<and> isl (extractWriteIDAndConfig E s) = False
      \<and> list_all (write_plain E) ints
      \<and> str_includes e (writeEnd E) \<and> \<not> str_includes e (writeStart E))"

text \<open>
  A region before and after one scan for a Snippet: the same, or a block of the Snippet's
  identifier whose interior has become the rendering.
\<close>

fun spliced_seg :: "common \<Rightarrow> features \<Rightarrow> Snippet \<Rightarrow> seg \<Rightarrow> seg \<Rightarrow> bool" where
  "spliced_seg E feats snippet (Line l) y = (y = Line l)"
| "spliced_seg E feats snippet (Block s ints e) y =
     (y = Block s ints e
      \<or> (write_id E s = Some (snippet_id snippet)
          \<and> y = Block s (rendering E feats snippet (write_config E s)) e))"

text \<open>A Snippet whose renderings, with and without the link line, have no write token.\<close>

definition plain_snippet :: "common \<Rightarrow> Snippet \<Rightarrow> bool" where
  "plain_snippet E snippet =
     (list_all (write_plain E) (fmt E snippet True)
      \<and> list_all (write_plain E) (fmt E snippet False))"

text \<open>A target file and its regions.\<close>

definition file_regions :: "common \<Rightarrow> File \<Rightarrow> seg list \<Rightarrow> bool" where
  "file_regions E file segs = (file_lines file = flat segs \<and> list_all (write_seg E) segs)"

definition with_regions :: "File \<Rightarrow> seg list \<Rightarrow> File" where
  "with_regions file segs = file\<lparr>file_lines := flat segs\<rparr>"

text \<open>
  A region before and after a run of \<open>spliceSnippets\<close> for Snippets of the identifiers
  \<open>ids\<close>: a line is the same line; a block has the same two marker lines, and the same
  interior unless its identifier is one of \<open>ids\<close>.
\<close>

fun same_frame :: "common \<Rightarrow> string set \<Rightarrow> seg \<Rightarrow> seg \<Rightarrow> bool" where
  "same_frame E ids (Line l) y = (y = Line l)"
| "same_frame E ids (Block s ints e) y =
     (case y of
        Line l \<Rightarrow> False
      | Block s' ints' e' \<Rightarrow>
          s' = s \<and> e' = e \<and> (write_id E s \<in> Some ` ids \<or> ints' = ints))"

section \<open>Values for the examples\<close>

definition sample_common :: common where
  "sample_common =
     \<lparr>readStart = ''@@@SNIPSTART'', readEnd = ''@@@SNIPEND'',
      writeStart = ''<!--SNIPSTART'', writeStartClose = ''-->'', writeEnd = ''<!--SNIPEND'',
      markdownCodeTicks = ''```'', fmtStartCodeBlock = (\<lambda>e. ''```'' @ e)\<rparr>"

definition sample_features :: features where
  "sample_features = \<lparr>enable_source_link = False\<rparr>"

definition sample_path :: FilePath where
  "sample_path = \<lparr>name = ''f.go'', directory = ''root/x/y''\<rparr>"

definition sample_snippet :: "string \<Rightarrow> string list \<Rightarrow> Snippet" where
  "sample_snippet i ls = (new_Snippet i ''go'' ''o'' ''r'' None sample_path)\<lparr>lines := ls\<rparr>"

definition sample_file :: "string list \<Rightarrow> File" where
  "sample_file ls = \<lparr>filename = ''doc.md'', fullpath = ''/docs/doc.md'', file_lines = ls\<rparr>"

section \<open>The Formatter\<close>

lemma js_split_not_Nil: "js_split sep s \<noteq> []"
  by (induction s) (auto split: list.splits)

lemma js_split_no_sep: "sep \<notin> set s \<Longrightarrow> js_split sep s = [s]"
  by (induction s) auto

lemma js_split_append: "js_split sep (a @ sep # b) = js_split sep a @ js_split sep b"
  by (induction a) (auto simp: js_split_not_Nil split: list.splits)

lemma js_join_append:
  "xs \<noteq> [] \<Longrightarrow> ys \<noteq> [] \<Longrightarrow> js_join sep (xs @ ys) = js_join sep xs @ sep @ js_join sep ys"
proof (induction sep xs rule: js_join.induct)
  case (1 sep)
  then show ?case by simp
next
  case (2 sep p)
  then show ?case by (cases ys) auto
next
  case (3 sep p q ps)
  then show ?case by simp
qed

lemma js_join_split: "js_join [sep] (js_split sep s) = s"
proof (induction s)
  case Nil
  then show ?case by simp
next
  case (Cons c cs)
  obtain p ps where sp: "js_split sep cs = p # ps"
    using js_split_not_Nil [of sep cs] by (cases "js_split sep cs") auto
  show ?case
  proof (cases "c = sep")
    case True
    with sp Cons show ?thesis by simp
  next
    case False
    with sp Cons show ?thesis by (cases ps) auto
  qed
qed

lemma buildPath_after_first:
  assumes "directory (filePath snip) = first @ ''/'' @ rest" and "CHR ''/'' \<notin> set first"
  shows "buildPath snip = rest @ ''/'' @ name (filePath snip)"
proof -
  have "js_split CHR ''/'' (directory (filePath snip)) = first # js_split CHR ''/'' rest"
    using assms by (simp add: js_split_append js_split_no_sep)
  then show ?thesis
    by (simp add: buildPath_def js_join_append js_split_not_Nil js_join_split)
qed

lemma buildPath_single:
  assumes "CHR ''/'' \<notin> set (directory (filePath snip))"
  shows "buildPath snip = name (filePath snip)"
  using assms by (simp add: buildPath_def js_split_no_sep)

lemma buildURL_eq:
  "buildURL snip = ''https://github.com/'' @ owner snip @ ''/'' @ repo snip @ ''/blob/''
     @ (case ref snip of None \<Rightarrow> ''master'' | Some g \<Rightarrow> if g = [] then ''master'' else g)
     @ ''/'' @ buildPath snip"
proof -
  let ?segs = "drop 1 (js_split CHR ''/'' (directory (filePath snip))) @ [name (filePath snip)]"
  have "js_join ''/'' ([a, b, c, d, e] @ ?segs)
          = a @ ''/'' @ b @ ''/'' @ c @ ''/'' @ d @ ''/'' @ e @ ''/'' @ js_join ''/'' ?segs"
    for a b c d e
    using js_join_append [of "[a, b, c, d, e]" ?segs "''/''"] by simp
  then show ?thesis
    by (simp add: buildURL_def buildPath_def Let_def split: option.splits)
qed

lemma determineExtension_after_dot:
  "CHR ''.'' \<notin> set e \<Longrightarrow> determineExtension (stem @ ''.'' @ e) = e"
  by (simp add: determineExtension_def js_split_append js_split_no_sep js_split_not_Nil)

text \<open>
  C7. The rendering of a Snippet is, in order: when the flag is set, one line
  \<open>[label](url)\<close> whose label is the directory segments after the first joined with the file
  name, and whose URL is \<open>https://github.com/owner/repo/blob/ref/label\<close> with \<open>master\<close> for
  an empty or undefined ref; the opening fence for the Snippet's extension; the captured
  lines; the closing fence. The extension of a file name is the text after its last dot.
\<close>

theorem fmt_rendering:
  "fmt E snip flag =
     (if flag then
        [''['' @ buildPath snip @ ''](https://github.com/'' @ owner snip @ ''/'' @ repo snip
           @ ''/blob/''
           @ (case ref snip of None \<Rightarrow> ''master'' | Some g \<Rightarrow> if g = [] then ''master'' else g)
           @ ''/'' @ buildPath snip @ '')'']
      else [])
     @ [fmtStartCodeBlock E (ext snip)] @ lines snip @ [markdownCodeTicks E]
   \<and> (\<forall>first rest. directory (filePath snip) = first @ ''/'' @ rest \<and> CHR ''/'' \<notin> set first
        \<longrightarrow> buildPath snip = rest @ ''/'' @ name (filePath snip))
   \<and> (CHR ''/'' \<notin> set (directory (filePath snip)) \<longrightarrow> buildPath snip = name (filePath snip))
   \<and> (\<forall>stem e. CHR ''.'' \<notin> set e \<longrightarrow> determineExtension (stem @ ''.'' @ e) = e)"
proof (intro conjI allI impI)
  show "fmt E snip flag =
     (if flag then
        [''['' @ buildPath snip @ ''](https://github.com/'' @ owner snip @ ''/'' @ repo snip
           @ ''/blob/''
           @ (case ref snip of None \<Rightarrow> ''master'' | Some g \<Rightarrow> if g = [] then ''master'' else g)
           @ ''/'' @ buildPath snip @ '')'']
      else [])
     @ [fmtStartCodeBlock E (ext snip)] @ lines snip @ [markdownCodeTicks E]"
    by (simp add: fmt_def fmt_call_def fmtSourceLink_def buildURL_eq)
next
  fix first rest
  assume "directory (filePath snip) = first @ ''/'' @ rest \<and> CHR ''/'' \<notin> set first"
  then show "buildPath snip = rest @ ''/'' @ name (filePath snip)"
    using buildPath_after_first by blast
next
  assume "CHR ''/'' \<notin> set (directory (filePath snip))"
  then show "buildPath snip = name (filePath snip)" by (rule buildPath_single)
next
  fix stem e :: string
  assume "CHR ''.'' \<notin> set e"
  then show "determineExtension (stem @ ''.'' @ e) = e" by (rule determineExtension_after_dot)
qed

theorem fmt_rendering_witness:
  "fmt sample_common (sample_snippet ''a'' [''x=1'']) True =
     [''[x/y/f.go](https://github.com/o/r/blob/master/x/y/f.go)'', ''```go'', ''x=1'', ''```'']
   \<and> determineExtension ''f.go'' = ''go''"
proof -
  let ?s = "sample_snippet ''a'' [''x=1'']"
  note inst = fmt_rendering [of sample_common ?s True]
  have dir: "directory (filePath ?s) = ''root'' @ ''/'' @ ''x/y'' \<and> CHR ''/'' \<notin> set ''root''"
    by (simp add: sample_snippet_def new_Snippet_def sample_path_def)
  from inst dir have path: "buildPath ?s = ''x/y'' @ ''/'' @ name (filePath ?s)"
    by blast
  have dot: "CHR ''.'' \<notin> set ''go''" by simp
  from inst dot have dext: "determineExtension (''f'' @ ''.'' @ ''go'') = ''go''"
    by blast
  from inst have "fmt sample_common ?s True =
      [''['' @ buildPath ?s @ ''](https://github.com/'' @ owner ?s @ ''/'' @ repo ?s
           @ ''/blob/''
           @ (case ref ?s of None \<Rightarrow> ''master'' | Some g \<Rightarrow> if g = [] then ''master'' else g)
           @ ''/'' @ buildPath ?s @ '')'']
      @ [fmtStartCodeBlock sample_common (ext ?s)] @ lines ?s @ [markdownCodeTicks sample_common]"
    by simp
  with path dext show ?thesis
    by (simp add: sample_snippet_def new_Snippet_def sample_path_def sample_common_def)
qed

section \<open>Substrings and matches\<close>

lemma str_includes_iff: "str_includes s t \<longleftrightarrow> (\<exists>a b. s = a @ t @ b)"
proof (induction s)
  case Nil
  then show ?case by auto
next
  case (Cons c cs)
  show ?case
  proof
    assume "str_includes (c # cs) t"
    then consider "prefix t (c # cs)" | "str_includes cs t" by auto
    then show "\<exists>a b. c # cs = a @ t @ b"
    proof cases
      case 1
      then obtain b where "c # cs = t @ b" by (auto simp: prefix_def)
      then have "c # cs = [] @ t @ b" by simp
      then show ?thesis by blast
    next
      case 2
      with Cons obtain a b where "cs = a @ t @ b" by blast
      then have "c # cs = (c # a) @ t @ b" by simp
      then show ?thesis by blast
    qed
  next
    assume "\<exists>a b. c # cs = a @ t @ b"
    then obtain a b where ab: "c # cs = a @ t @ b" by blast
    show "str_includes (c # cs) t"
    proof (cases a)
      case Nil
      with ab have "prefix t (c # cs)" by (simp add: prefix_def)
      then show ?thesis by simp
    next
      case (Cons x a')
      with ab have "cs = a' @ t @ b" by simp
      with Cons.IH have "str_includes cs t" by blast
      then show ?thesis by simp
    qed
  qed
qed

lemma str_includes_prefix: "prefix t s \<Longrightarrow> str_includes s t"
  by (auto simp: str_includes_iff prefix_def)

lemma str_includes_suffix: "suffix s' s \<Longrightarrow> str_includes s' t \<Longrightarrow> str_includes s t"
  by (auto simp: str_includes_iff suffix_def) (metis append.assoc)

lemma suffix_drop_trans: "suffix s' (drop n s) \<Longrightarrow> suffix s' s"
  using suffix_drop suffix_order.trans by blast

lemma in_concat_map_prod:
  "z \<in> set (concat (map (\<lambda>(a, b). f a b) xs)) \<Longrightarrow> \<exists>a b. (a, b) \<in> set xs \<and> z \<in> set (f a b)"
  by auto

lemma rx_matches_suffix_lit:
  "(s', c') \<in> set (rx_matches rs s c) \<Longrightarrow>
     suffix s' s \<and> (rs \<noteq> [] \<and> last rs = Lit t \<longrightarrow> str_includes s t)"
proof (induction rs s c arbitrary: s' c' rule: rx_matches.induct)
  case (1 s c)
  then show ?case by simp
next
  case (2 u rs s c)
  from "2.prems" have pre: "prefix u s" and mem: "(s', c') \<in> set (rx_matches rs (drop (length u) s) c)"
    by (auto split: if_splits)
  from "2.IH" [OF pre mem]
  have ih: "suffix s' (drop (length u) s)"
    "rs \<noteq> [] \<and> last rs = Lit t \<longrightarrow> str_includes (drop (length u) s) t" by auto
  have "str_includes s t" if "last (Lit u # rs) = Lit t"
  proof (cases "rs = []")
    case True
    with that pre show ?thesis by (simp add: str_includes_prefix)
  next
    case False
    with that ih have "str_includes (drop (length u) s) t" by simp
    then show ?thesis using str_includes_suffix suffix_drop by blast
  qed
  with ih show ?case using suffix_drop_trans by blast
next
  case (3 P rs s c)
  from "3.prems" obtain n where n: "n \<in> set (rev [1 ..< Suc (length (takeWhile P s))])"
    and mem: "(s', c') \<in> set (rx_matches rs (drop n s) c)"
    unfolding rx_matches.simps set_concat set_map by blast
  from "3.IH" [OF n mem]
  have ih: "suffix s' (drop n s)" "rs \<noteq> [] \<and> last rs = Lit t \<longrightarrow> str_includes (drop n s) t"
    by auto
  have "str_includes s t" if "last (Plus P # rs) = Lit t"
  proof -
    from that have "rs \<noteq> []" by (cases rs) auto
    with that ih have "str_includes (drop n s) t" by simp
    then show ?thesis using str_includes_suffix suffix_drop by blast
  qed
  with ih show ?case using suffix_drop_trans by blast
next
  case (4 P rs s c)
  from "4.prems" obtain n where n: "n \<in> set (rev [0 ..< Suc (length (takeWhile P s))])"
    and mem: "(s', c') \<in> set (rx_matches rs (drop n s) c)"
    unfolding rx_matches.simps set_concat set_map by blast
  from "4.IH" [OF n mem]
  have ih: "suffix s' (drop n s)" "rs \<noteq> [] \<and> last rs = Lit t \<longrightarrow> str_includes (drop n s) t"
    by auto
  have "str_includes s t" if "last (Star P # rs) = Lit t"
  proof -
    from that have "rs \<noteq> []" by (cases rs) auto
    with that ih have "str_includes (drop n s) t" by simp
    then show ?thesis using str_includes_suffix suffix_drop by blast
  qed
  with ih show ?case using suffix_drop_trans by blast
next
  case (5 i body rs s c)
  from "5.prems" have "(s', c') \<in> set (concat (map
      (\<lambda>(s1, c1). rx_matches rs s1 (c1(i \<mapsto> take (length s - length s1) s)))
      (rx_matches body s c)))" by simp
  from in_concat_map_prod [OF this]
  obtain s1 c1 where b: "(s1, c1) \<in> set (rx_matches body s c)"
    and mem: "(s', c') \<in> set (rx_matches rs s1 (c1(i \<mapsto> take (length s - length s1) s)))"
    by blast
  from "5.IH"(1) [OF b] have s1: "suffix s1 s" by simp
  from "5.IH"(2) [OF b refl mem]
  have ih: "suffix s' s1" "rs \<noteq> [] \<and> last rs = Lit t \<longrightarrow> str_includes s1 t" by auto
  have "str_includes s t" if "last (Grp i body # rs) = Lit t"
  proof -
    from that have "rs \<noteq> []" by (cases rs) auto
    with that ih have "str_includes s1 t" by simp
    with s1 show ?thesis using str_includes_suffix by blast
  qed
  with ih s1 show ?case using suffix_order.trans by blast
next
  case (6 body rs s c)
  from "6.prems" consider
    (taken) s1 c1 where "(s1, c1) \<in> set (rx_matches body s c)" "(s', c') \<in> set (rx_matches rs s1 c1)"
    | (skipped) "(s', c') \<in> set (rx_matches rs s c)" by auto
  then show ?case
  proof cases
    case taken
    from "6.IH"(1) [OF taken(1)] have s1: "suffix s1 s" by simp
    from "6.IH"(2) [OF taken(1) refl taken(2)]
    have ih: "suffix s' s1" "rs \<noteq> [] \<and> last rs = Lit t \<longrightarrow> str_includes s1 t" by auto
    have "str_includes s t" if "last (Opt body # rs) = Lit t"
    proof -
      from that have "rs \<noteq> []" by (cases rs) auto
      with that ih have "str_includes s1 t" by simp
      with s1 show ?thesis using str_includes_suffix by blast
    qed
    with ih s1 show ?thesis using suffix_order.trans by blast
  next
    case skipped
    from "6.IH"(3) [OF skipped]
    have ih: "suffix s' s" "rs \<noteq> [] \<and> last rs = Lit t \<longrightarrow> str_includes s t" by auto
    have "str_includes s t" if "last (Opt body # rs) = Lit t"
    proof -
      from that have "rs \<noteq> []" by (cases rs) auto
      with that ih show ?thesis by simp
    qed
    with ih show ?thesis by blast
  qed
qed

lemma js_match_Some_elim:
  "js_match re s = Some c' \<Longrightarrow> \<exists>p s'. (s', c') \<in> set (rx_matches re (drop p s) (\<lambda>_. None))"
proof (induction s)
  case Nil
  then show ?case by (auto split: list.splits)
next
  case (Cons x xs)
  show ?case
  proof (cases "rx_matches re (x # xs) (\<lambda>_. None)")
    case Nil
    with Cons.prems have "js_match re xs = Some c'" by simp
    with Cons.IH obtain p s' where "(s', c') \<in> set (rx_matches re (drop p xs) (\<lambda>_. None))" by blast
    then have "(s', c') \<in> set (rx_matches re (drop (Suc p) (x # xs)) (\<lambda>_. None))" by simp
    then show ?thesis by blast
  next
    case (Cons m ms)
    with Cons.prems obtain s' where "m = (s', c')" by (cases m) auto
    with Cons have "(s', c') \<in> set (rx_matches re (drop 0 (x # xs)) (\<lambda>_. None))" by simp
    then show ?thesis by blast
  qed
qed

lemma js_match_needs_last_lit:
  assumes "re \<noteq> []" and "last re = Lit t" and "\<not> str_includes s t"
  shows "js_match re s = None"
proof (rule ccontr)
  assume "js_match re s \<noteq> None"
  then obtain c' where "js_match re s = Some c'" by auto
  then obtain p s' where "(s', c') \<in> set (rx_matches re (drop p s) (\<lambda>_. None))"
    using js_match_Some_elim by blast
  with assms(1,2) have "str_includes (drop p s) t"
    using rx_matches_suffix_lit by blast
  then have "str_includes s t" using str_includes_suffix suffix_drop by blast
  with assms(3) show False by simp
qed

lemma extractWriteIDAndConfig_no_close:
  "\<not> str_includes line (writeStartClose E) \<Longrightarrow> extractWriteIDAndConfig E line = Inl TypeError"
  using js_match_needs_last_lit [of "writeMatchRegexp E" "writeStartClose E" line]
  by (simp add: extractWriteIDAndConfig_def writeMatchRegexp_def)

section \<open>The scan of \<open>getSplicedFile\<close>\<close>

lemma scan_start_passes: "passes E snippet l \<Longrightarrow> scan_start E snippet l n st = Inr st"
  by (auto simp: passes_def scan_start_def split: sum.splits if_splits)

lemma scan_start_opens:
  "opens E snippet l cfg \<Longrightarrow>
     scan_start E snippet l n st = Inr \<lparr>lookForStop = True, spliceStart = n, config = cfg\<rparr>"
  by (simp add: opens_def scan_start_def)

lemma scan_start_error:
  "str_includes l (writeStart E) \<Longrightarrow> extractWriteIDAndConfig E l = Inl err \<Longrightarrow>
     scan_start E snippet l n st = Inl err"
  by (simp add: scan_start_def)

lemma scan_lines_done:
  "length flines \<le> idx \<Longrightarrow> scan_lines E feats snippet idx st flines = Some (Inr flines)"
  by (subst scan_lines.simps) simp

lemma scan_lines_step_pass:
  assumes "idx < length flines" and "passes E snippet (flines ! idx)"
    and "lookForStop st \<longrightarrow> \<not> str_includes (flines ! idx) (writeEnd E)"
  shows "scan_lines E feats snippet idx st flines = scan_lines E feats snippet (Suc idx) st flines"
  using assms by (subst scan_lines.simps) (auto simp: scan_start_passes Let_def)

lemma scan_lines_step_open:
  assumes "idx < length flines" and "opens E snippet (flines ! idx) cfg"
    and "\<not> str_includes (flines ! idx) (writeEnd E)"
  shows "scan_lines E feats snippet idx st flines =
         scan_lines E feats snippet (Suc idx)
           \<lparr>lookForStop = True, spliceStart = Suc idx, config = cfg\<rparr> flines"
  using assms by (subst scan_lines.simps) (simp add: scan_start_opens Let_def)

lemma scan_lines_step_close:
  assumes "idx < length flines" and "passes E snippet (flines ! idx)"
    and "str_includes (flines ! idx) (writeEnd E)" and "lookForStop st"
  shows "scan_lines E feats snippet idx st flines =
         scan_lines E feats snippet (Suc idx) (st\<lparr>lookForStop := False\<rparr>)
           (spliceFile E (spliceStart st) (Suc idx) snippet flines
              (config_or_features (config st) feats))"
  using assms by (subst scan_lines.simps) (simp add: scan_start_passes Let_def)

lemma scan_lines_step_error:
  assumes "idx < length flines" and "str_includes (flines ! idx) (writeStart E)"
    and "extractWriteIDAndConfig E (flines ! idx) = Inl err"
  shows "scan_lines E feats snippet idx st flines = Some (Inl err)"
  using assms by (subst scan_lines.simps) (simp add: scan_start_error Let_def)

text \<open>A run of lines that pass, none of them a write-end line the scan is looking for.\<close>

lemma scan_lines_run:
  assumes "list_all (\<lambda>l. passes E snippet l
                        \<and> (lookForStop st \<longrightarrow> \<not> str_includes l (writeEnd E))) mid"
  shows "scan_lines E feats snippet (length pre) st (pre @ mid @ post) =
         scan_lines E feats snippet (length pre + length mid) st (pre @ mid @ post)"
  using assms
proof (induction mid arbitrary: pre)
  case Nil
  then show ?case by simp
next
  case (Cons l mid)
  have "scan_lines E feats snippet (length pre) st (pre @ (l # mid) @ post) =
        scan_lines E feats snippet (Suc (length pre)) st (pre @ (l # mid) @ post)"
    using Cons.prems by (intro scan_lines_step_pass) (simp_all add: nth_append)
  also have "\<dots> = scan_lines E feats snippet (length (pre @ [l])) st ((pre @ [l]) @ mid @ post)"
    by simp
  also have "\<dots> = scan_lines E feats snippet (length (pre @ [l]) + length mid) st
                    ((pre @ [l]) @ mid @ post)"
    using Cons.prems by (intro Cons.IH) simp
  finally show ?case by simp
qed

lemma scan_lines_rest_passes:
  assumes "list_all (passes E snippet) mid" and "\<not> lookForStop st"
  shows "scan_lines E feats snippet (length pre) st (pre @ mid) = Some (Inr (pre @ mid))"
proof -
  have "list_all (\<lambda>l. passes E snippet l
                        \<and> (lookForStop st \<longrightarrow> \<not> str_includes l (writeEnd E))) mid"
    using assms by (simp add: list_all_iff)
  from scan_lines_run [OF this, of feats pre "[]"]
  show ?thesis by (simp add: scan_lines_done)
qed

lemma spliceFile_block:
  "spliceFile E (Suc (length pre)) (Suc (Suc (length pre + length ints))) snippet
     (pre @ s # ints @ e # post) cfg
   = pre @ s # fmt E snippet (config_enable_source_link cfg) @ e # post"
  by (simp add: spliceFile_def js_splice_def Let_def)

lemma scan_lines_tail_passes:
  assumes "list_all (passes E snippet) (drop idx flines)" and "\<not> lookForStop st"
  shows "scan_lines E feats snippet idx st flines = Some (Inr flines)"
proof (cases "idx \<le> length flines")
  case True
  then have len: "length (take idx flines) = idx" by simp
  from scan_lines_rest_passes [OF assms, of feats "take idx flines"]
  show ?thesis unfolding len by simp
next
  case False
  then show ?thesis by (simp add: scan_lines_done)
qed

lemma list_all_drop: "list_all P xs \<Longrightarrow> list_all P (drop n xs)"
  by (auto simp: list_all_iff dest: in_set_dropD)

text \<open>
  One scan over a file whose only block of the Snippet's identifier is \<open>s, ints, e\<close>: every
  other line passes.
\<close>

lemma scan_single_block:
  assumes pre: "list_all (passes E snippet) pre"
    and s: "opens E snippet s cfg" "\<not> str_includes s (writeEnd E)"
    and ints: "list_all (\<lambda>l. passes E snippet l \<and> \<not> str_includes l (writeEnd E)) ints"
    and e: "str_includes e (writeEnd E)" "passes E snippet e"
    and post: "list_all (passes E snippet) post"
    and rend: "list_all (passes E snippet) (rendering E feats snippet cfg)"
    and st: "\<not> lookForStop st"
  shows "scan_lines E feats snippet 0 st (pre @ s # ints @ e # post) =
         Some (Inr (pre @ s # rendering E feats snippet cfg @ e # post))"
proof -
  let ?fl = "pre @ s # ints @ e # post"
  let ?st1 = "\<lparr>lookForStop = True, spliceStart = Suc (length pre), config = cfg\<rparr>"
  let ?R = "rendering E feats snippet cfg"
  have "list_all (\<lambda>l. passes E snippet l
          \<and> (lookForStop st \<longrightarrow> \<not> str_includes l (writeEnd E))) pre"
    using pre st by (simp add: list_all_iff)
  from scan_lines_run [OF this, of feats "[]" "s # ints @ e # post"]
  have "scan_lines E feats snippet 0 st ?fl = scan_lines E feats snippet (length pre) st ?fl"
    by simp
  also have "\<dots> = scan_lines E feats snippet (Suc (length pre)) ?st1 ?fl"
    using s by (intro scan_lines_step_open) (simp_all add: nth_append)
  also have "\<dots> = scan_lines E feats snippet (length (pre @ [s]) + length ints) ?st1 ?fl"
  proof -
    have "list_all (\<lambda>l. passes E snippet l
            \<and> (lookForStop ?st1 \<longrightarrow> \<not> str_includes l (writeEnd E))) ints"
      using ints by (simp add: list_all_iff)
    from scan_lines_run [OF this, of feats "pre @ [s]" "e # post"]
    show ?thesis by simp
  qed
  also have "\<dots> = scan_lines E feats snippet (Suc (Suc (length pre + length ints)))
                     (?st1\<lparr>lookForStop := False\<rparr>)
                     (spliceFile E (spliceStart ?st1) (Suc (Suc (length pre + length ints)))
                        snippet ?fl (config_or_features (config ?st1) feats))"
  proof -
    have nth: "?fl ! (length (pre @ [s]) + length ints) = e"
      by (simp add: nth_append)
    have "scan_lines E feats snippet (length (pre @ [s]) + length ints) ?st1 ?fl =
          scan_lines E feats snippet (Suc (length (pre @ [s]) + length ints))
            (?st1\<lparr>lookForStop := False\<rparr>)
            (spliceFile E (spliceStart ?st1) (Suc (length (pre @ [s]) + length ints))
               snippet ?fl (config_or_features (config ?st1) feats))"
      using e by (intro scan_lines_step_close) (simp_all only: nth, simp_all)
    then show ?thesis by simp
  qed
  also have "\<dots> = scan_lines E feats snippet (Suc (Suc (length pre + length ints)))
                     (?st1\<lparr>lookForStop := False\<rparr>) (pre @ s # ?R @ e # post)"
    by (simp add: spliceFile_block rendering_def)
  also have "\<dots> = Some (Inr (pre @ s # ?R @ e # post))"
  proof (rule scan_lines_tail_passes)
    have "drop (Suc (Suc (length pre + length ints))) (pre @ s # ?R @ e # post)
          = drop (Suc (length ints)) (?R @ e # post)"
      by simp
    moreover have "list_all (passes E snippet) (?R @ e # post)"
      using rend e post by simp
    ultimately show "list_all (passes E snippet)
        (drop (Suc (Suc (length pre + length ints))) (pre @ s # ?R @ e # post))"
      using list_all_drop by metis
  qed simp
  finally show ?thesis .
qed

lemma passes_cong: "snippet_id a = snippet_id b \<Longrightarrow> passes E a l = passes E b l"
  by (auto simp: passes_def split: sum.splits)

lemma opens_cong: "snippet_id a = snippet_id b \<Longrightarrow> opens E a l cfg = opens E b l cfg"
  by (simp add: opens_def)


section \<open>Evaluating the examples\<close>

lemmas sample_defs =
  sample_common_def sample_features_def sample_snippet_def sample_path_def sample_file_def
  new_Snippet_def

lemmas marker_defs =
  extractWriteIDAndConfig_def writeMatchRegexp_def extractReadID_def readMatchRegexp_def
  rx_space_def rx_nonspace_def rx_dot_def

lemma sample_write_a:
  "extractWriteIDAndConfig sample_common ''<!--SNIPSTART a-->'' = Inr (Some ''a'', None)"
  by (simp add: sample_defs marker_defs)

lemma sample_write_b:
  "extractWriteIDAndConfig sample_common ''<!--SNIPSTART b-->'' = Inr (Some ''b'', None)"
  by (simp add: sample_defs marker_defs)

lemma sample_rendering:
  "rendering sample_common sample_features (sample_snippet i ls) None = ''```go'' # ls @ [''```'']"
  by (simp add: rendering_def fmt_def fmt_call_def config_or_features_def sample_defs)

section \<open>Splicing one block\<close>

lemma getSplicedFile_single_block:
  assumes "file_lines file = pre @ s # ints @ e # post"
    and "list_all (passes E snippet) pre"
    and "opens E snippet s cfg" and "\<not> str_includes s (writeEnd E)"
    and "list_all (\<lambda>l. passes E snippet l \<and> \<not> str_includes l (writeEnd E)) ints"
    and "str_includes e (writeEnd E)" and "passes E snippet e"
    and "list_all (passes E snippet) post"
    and "list_all (passes E snippet) (rendering E feats snippet cfg)"
  shows "getSplicedFile E feats snippet file =
           Some (Inr (file\<lparr>file_lines := pre @ s # rendering E feats snippet cfg @ e # post\<rparr>))"
proof -
  have "scan_lines E feats snippet 0 \<lparr>lookForStop = False, spliceStart = 0, config = None\<rparr>
          (pre @ s # ints @ e # post) =
        Some (Inr (pre @ s # rendering E feats snippet cfg @ e # post))"
    using assms(2-9) by (intro scan_single_block) simp_all
  then show ?thesis
    by (simp add: getSplicedFile_def assms(1))
qed

text \<open>The splice itself, for 1-based marker lines \<open>n < m\<close> of any array.\<close>

lemma spliceFile_positions:
  assumes "n < m" and "m \<le> length ls"
  shows "spliceFile E n m snippet ls conf =
           take n ls @ fmt E snippet (config_enable_source_link conf) @ drop (m - 1) ls"
proof -
  have "nat (min (max (int m - int n - 1) 0) (int (length ls - min n (length ls)))) = m - n - 1"
    using assms by simp
  moreover have "min n (length ls) = n" "n + (m - n - 1) = m - 1"
    using assms by simp_all
  ultimately show ?thesis
    by (simp add: spliceFile_def js_splice_def Let_def)
qed

section \<open>Two Snippets of one identifier\<close>

text \<open>
  Two Snippets of the same identifier, spliced in sequence into a file whose only block
  of that identifier is \<open>s, ints, e\<close>, leave the interior equal to the rendering of the
  second one: the second scan runs on the lines the first one produced.
\<close>

lemma last_write_wins:
  assumes "snippet_id s2 = snippet_id s1"
    and "file_lines file = pre @ s # ints @ e # post"
    and "list_all (passes E s1) pre"
    and "opens E s1 s cfg" and "\<not> str_includes s (writeEnd E)"
    and "list_all (\<lambda>l. passes E s1 l \<and> \<not> str_includes l (writeEnd E)) ints"
    and "str_includes e (writeEnd E)" and "passes E s1 e"
    and "list_all (passes E s1) post"
    and "list_all (\<lambda>l. passes E s1 l \<and> \<not> str_includes l (writeEnd E)) (rendering E feats s1 cfg)"
    and "list_all (passes E s1) (rendering E feats s2 cfg)"
  shows "spliceSnippets E feats [s1, s2] [file] =
           Some (Inr [file\<lparr>file_lines := pre @ s # rendering E feats s2 cfg @ e # post\<rparr>])"
proof -
  let ?f1 = "file\<lparr>file_lines := pre @ s # rendering E feats s1 cfg @ e # post\<rparr>"
  have p12: "passes E s2 = passes E s1"
    using assms(1) passes_cong by blast
  have r1: "list_all (passes E s1) (rendering E feats s1 cfg)"
    using assms(10) by (simp add: list_all_iff)
  have first: "getSplicedFile E feats s1 file = Some (Inr ?f1)"
    using assms(2-9) r1 by (rule getSplicedFile_single_block)
  have "getSplicedFile E feats s2 ?f1 =
          Some (Inr (?f1\<lparr>file_lines := pre @ s # rendering E feats s2 cfg @ e # post\<rparr>))"
  proof (rule getSplicedFile_single_block)
    show "file_lines ?f1 = pre @ s # rendering E feats s1 cfg @ e # post" by simp
    show "opens E s2 s cfg" using assms(1,4) opens_cong by blast
  qed (use assms p12 in simp_all)
  then have second: "getSplicedFile E feats s2 ?f1 =
      Some (Inr (file\<lparr>file_lines := pre @ s # rendering E feats s2 cfg @ e # post\<rparr>))"
    by simp
  show ?thesis by (simp add: first second)
qed

lemma last_write_wins_example:
  "spliceSnippets sample_common sample_features
     [sample_snippet ''a'' [''x=1''], sample_snippet ''a'' [''y=2'', ''z=3'']]
     [sample_file [''<!--SNIPSTART b-->'', ''kept'', ''<!--SNIPEND-->'',
                   ''<!--SNIPSTART a-->'', ''old'', ''<!--SNIPEND-->'', ''tail'']]
   = Some (Inr [sample_file
                  [''<!--SNIPSTART b-->'', ''kept'', ''<!--SNIPEND-->'',
                   ''<!--SNIPSTART a-->'', ''```go'', ''y=2'', ''z=3'', ''```'',
                   ''<!--SNIPEND-->'', ''tail'']])"
proof -
  let ?s1 = "sample_snippet ''a'' [''x=1'']"
  let ?s2 = "sample_snippet ''a'' [''y=2'', ''z=3'']"
  have pb: "passes sample_common ?s1 ''<!--SNIPSTART b-->''"
    by (simp add: passes_def sample_write_b) (simp add: sample_defs)
  have oa: "opens sample_common ?s1 ''<!--SNIPSTART a-->'' None"
    by (simp add: opens_def sample_write_a) (simp add: sample_defs)
  have plain: "passes sample_common ?s1 l" if "\<not> str_includes l (writeStart sample_common)" for l
    using that by (simp add: passes_def)
  have ws: "writeStart sample_common = ''<!--SNIPSTART''" "writeEnd sample_common = ''<!--SNIPEND''"
    by (simp_all add: sample_defs)
  have ids: "snippet_id ?s2 = snippet_id ?s1" by (simp add: sample_defs)
  from last_write_wins
    [of ?s2 ?s1
        "sample_file [''<!--SNIPSTART b-->'', ''kept'', ''<!--SNIPEND-->'',
                   ''<!--SNIPSTART a-->'', ''old'', ''<!--SNIPEND-->'', ''tail'']"
        "[''<!--SNIPSTART b-->'', ''kept'', ''<!--SNIPEND-->'']"
        "''<!--SNIPSTART a-->''" "[''old'']" "''<!--SNIPEND-->''" "[''tail'']"
        sample_common None sample_features, OF ids]
  show ?thesis
    by (simp add: pb oa plain ws sample_rendering) (simp add: sample_file_def)
qed

section \<open>Several blocks of one identifier\<close>

lemmas scan_eval =
  getSplicedFile_def scan_lines.simps scan_start_def spliceFile_def js_splice_def
  config_or_features_def fmt_def fmt_call_def

text \<open>
  C1. A file with two blocks of identifier \<open>a\<close> (line 2 to line 7, and line 8 to line
  10) and a block \<open>b\<close>; the Snippet \<open>a\<close> renders to three lines. The start marker of
  either block is one the Snippet's identifier matches. The scan replaces the four
  interior lines of the first block by the rendering, which moves the start marker of
  the second block to the index the loop has just left: the loop goes on behind it, and
  the lines strictly between the markers of the second block are not replaced.
\<close>

theorem second_matching_block_not_spliced:
  "opens sample_common (sample_snippet ''a'' [''x=1'']) ''<!--SNIPSTART a-->'' None
   \<and> getSplicedFile sample_common sample_features (sample_snippet ''a'' [''x=1''])
       (sample_file [''# Title'',
                     ''<!--SNIPSTART a-->'', ''o1'', ''o2'', ''o3'', ''o4'', ''<!--SNIPEND-->'',
                     ''<!--SNIPSTART a-->'', ''old'', ''<!--SNIPEND-->'',
                     ''<!--SNIPSTART b-->'', ''kept'', ''<!--SNIPEND-->''])
     = Some (Inr (sample_file
                  [''# Title'',
                   ''<!--SNIPSTART a-->'', ''```go'', ''x=1'', ''```'', ''<!--SNIPEND-->'',
                   ''<!--SNIPSTART a-->'', ''old'', ''<!--SNIPEND-->'',
                   ''<!--SNIPSTART b-->'', ''kept'', ''<!--SNIPEND-->'']))"
  by (simp add: opens_def scan_eval Let_def sample_defs marker_defs)

text \<open>
  C2. A file with two blocks of identifier \<open>a\<close>, the first with three interior lines; the
  Snippet \<open>a\<close> renders to two lines. The first run splices the first block and then reads
  on from the old index of its end marker, past the start marker of the second block,
  which keeps its interior; a second run with the same Snippet splices the second block.
\<close>

theorem splice_twice_differs:
  "spliceSnippets sample_common sample_features [sample_snippet ''a'' []]
     [sample_file [''<!--SNIPSTART a-->'', ''x1'', ''x2'', ''x3'', ''<!--SNIPEND-->'',
                   ''<!--SNIPSTART a-->'', ''old'', ''<!--SNIPEND-->'']]
   = Some (Inr [sample_file [''<!--SNIPSTART a-->'', ''```go'', ''```'', ''<!--SNIPEND-->'',
                             ''<!--SNIPSTART a-->'', ''old'', ''<!--SNIPEND-->'']])
   \<and> spliceSnippets sample_common sample_features [sample_snippet ''a'' []]
       [sample_file [''<!--SNIPSTART a-->'', ''```go'', ''```'', ''<!--SNIPEND-->'',
                     ''<!--SNIPSTART a-->'', ''old'', ''<!--SNIPEND-->'']]
   = Some (Inr [sample_file [''<!--SNIPSTART a-->'', ''```go'', ''```'', ''<!--SNIPEND-->'',
                             ''<!--SNIPSTART a-->'', ''```go'', ''```'', ''<!--SNIPEND-->'']])"
  by (simp add: scan_eval Let_def sample_defs marker_defs)

text \<open>
  C3. A file with two blocks of identifier \<open>a\<close>, and two Snippets \<open>a\<close>: the first renders
  to five lines, the second to two. The scan for the second Snippet shrinks the first
  block and reads on past the start marker of the second block, whose interior stays the
  rendering of the first Snippet.
\<close>

theorem second_block_keeps_first_rendering:
  "spliceSnippets sample_common sample_features
     [sample_snippet ''a'' [''y1'', ''y2'', ''y3''], sample_snippet ''a'' []]
     [sample_file [''<!--SNIPSTART a-->'', ''<!--SNIPEND-->'',
                   ''<!--SNIPSTART a-->'', ''<!--SNIPEND-->'']]
   = Some (Inr [sample_file
                  [''<!--SNIPSTART a-->'', ''```go'', ''```'', ''<!--SNIPEND-->'',
                   ''<!--SNIPSTART a-->'', ''```go'', ''y1'', ''y2'', ''y3'', ''```'',
                   ''<!--SNIPEND-->'']])"
  by (simp add: scan_eval Let_def sample_defs marker_defs)

section \<open>\<open>fmt\<close> and the captured lines\<close>

lemma fmt_call_leaves_snippet: "snd (fmt_call E snip flag) = snip"
  by (simp add: fmt_call_def Let_def)

lemma fmt_ts_lines:
  "lines (fmt_ts E snip flag) =
     (if flag then [fmtSourceLink (snip\<lparr>lines := fmtStartCodeBlock E (ext snip) # lines snip @ [markdownCodeTicks E]\<rparr>)] else [])
     @ fmtStartCodeBlock E (ext snip) # lines snip @ [markdownCodeTicks E]"
  by (simp add: fmt_ts_def js_splice_def Let_def)

text \<open>
  C9. \<open>fmt\<close> of the TypeScript Snippet class splices the fences into the captured lines:
  after the call the Snippet holds three lines where it held one.
\<close>

theorem fmt_ts_changes_lines:
  "lines (sample_snippet ''a'' [''x=1'']) = [''x=1'']
   \<and> lines (fmt_ts sample_common (sample_snippet ''a'' [''x=1'']) False)
       = [''```go'', ''x=1'', ''```'']
   \<and> snd (fmt_call sample_common (sample_snippet ''a'' [''x=1'']) False)
       = sample_snippet ''a'' [''x=1'']"
  by (simp add: fmt_ts_def fmt_call_def js_splice_def Let_def sample_defs)

section \<open>Lines the write-start expression does not match\<close>

lemma js_match_write_id:
  assumes "js_match (writeMatchRegexp E) l = Some m"
  shows "m 1 \<noteq> None"
proof -
  from js_match_Some_elim [OF assms] obtain p s'
    where "(s', m) \<in> set (rx_matches (writeMatchRegexp E) (drop p l) (\<lambda>_. None))" by blast
  then show ?thesis
    by (auto simp: writeMatchRegexp_def split: if_splits)
qed

lemma extractWriteIDAndConfig_id:
  "extractWriteIDAndConfig E l = Inr (i, c) \<Longrightarrow> i \<noteq> None"
proof -
  assume a: "extractWriteIDAndConfig E l = Inr (i, c)"
  then obtain m where m: "js_match (writeMatchRegexp E) l = Some m"
    by (cases "js_match (writeMatchRegexp E) l") (simp_all add: extractWriteIDAndConfig_def)
  with a have "i = m 1"
    by (simp add: extractWriteIDAndConfig_def split: option.splits if_splits)
  with js_match_write_id [OF m] show ?thesis by simp
qed

lemma getSplicedFile_error:
  assumes "file_lines file = pre @ l # post"
    and "list_all (passes E snippet) pre"
    and "str_includes l (writeStart E)"
    and "extractWriteIDAndConfig E l = Inl err"
  shows "getSplicedFile E feats snippet file = Some (Inl err)"
proof -
  let ?st = "\<lparr>lookForStop = False, spliceStart = 0, config = None\<rparr>"
  have "list_all (\<lambda>l. passes E snippet l
          \<and> (lookForStop ?st \<longrightarrow> \<not> str_includes l (writeEnd E))) pre"
    using assms(2) by (simp add: list_all_iff)
  from scan_lines_run [OF this, of feats "[]" "l # post"]
  have "scan_lines E feats snippet 0 ?st (pre @ l # post) =
        scan_lines E feats snippet (length pre) ?st (pre @ l # post)" by simp
  also have "\<dots> = Some (Inl err)"
    using assms(3,4) by (intro scan_lines_step_error) (simp_all add: nth_append)
  finally show ?thesis by (simp add: getSplicedFile_def assms(1))
qed

text \<open>
  On a line that has the write-start token and not the closing token, the match of
  \<open>writeMatchRegexp\<close> is \<open>null\<close>: \<open>extractWriteIDAndConfig\<close> throws a \<open>TypeError\<close>, and so
  does the scan of \<open>getSplicedFile\<close> that reaches the line. Where
  \<open>extractWriteIDAndConfig\<close> returns, it returns an identifier.
\<close>

lemma write_start_without_close_throws:
  assumes "file_lines file = pre @ l # post"
    and "list_all (passes E snippet) pre"
    and "str_includes l (writeStart E)"
    and "\<not> str_includes l (writeStartClose E)"
  shows "extractWriteIDAndConfig E l = Inl TypeError
         \<and> getSplicedFile E feats snippet file = Some (Inl TypeError)
         \<and> (\<forall>l' i c. extractWriteIDAndConfig E l' = Inr (i, c) \<longrightarrow> i \<noteq> None)"
proof (intro conjI allI impI)
  show err: "extractWriteIDAndConfig E l = Inl TypeError"
    using assms(4) by (rule extractWriteIDAndConfig_no_close)
  show "getSplicedFile E feats snippet file = Some (Inl TypeError)"
    using assms(1-3) err by (rule getSplicedFile_error)
next
  fix l' i c
  assume "extractWriteIDAndConfig E l' = Inr (i, c)"
  then show "i \<noteq> None" by (rule extractWriteIDAndConfig_id)
qed

lemma write_start_without_close_throws_example:
  "extractWriteIDAndConfig sample_common ''<!--SNIPSTART a'' = Inl TypeError
   \<and> getSplicedFile sample_common sample_features (sample_snippet ''b'' [])
       (sample_file [''# Title'', ''<!--SNIPSTART a'', ''<!--SNIPEND-->'']) = Some (Inl TypeError)"
proof -
  have 1: "file_lines (sample_file [''# Title'', ''<!--SNIPSTART a'', ''<!--SNIPEND-->''])
           = [''# Title''] @ ''<!--SNIPSTART a'' # [''<!--SNIPEND-->'']"
    by (simp add: sample_defs)
  have 2: "list_all (passes sample_common (sample_snippet ''b'' [])) [''# Title'']"
    by (simp add: passes_def sample_defs)
  have 3: "str_includes ''<!--SNIPSTART a'' (writeStart sample_common)"
    by (simp add: sample_defs)
  have 4: "\<not> str_includes ''<!--SNIPSTART a'' (writeStartClose sample_common)"
    by (simp add: sample_defs)
  from write_start_without_close_throws [OF 1 2 3 4, of sample_features]
  show ?thesis by simp
qed

text \<open>
  C10. A line that is only the write-start token, and a line with the token and the
  closing token but no identifier between them, both contain the write-start token; on
  neither does the write-start parse return an identifier: the match is \<open>null\<close>, indexing
  it throws a \<open>TypeError\<close>, and the scan of \<open>getSplicedFile\<close> that reads such a line fails
  with it.
\<close>

theorem unmatched_write_start_throws:
  "str_includes ''<!--SNIPSTART'' (writeStart sample_common)
   \<and> extractWriteIDAndConfig sample_common ''<!--SNIPSTART'' = Inl TypeError
   \<and> str_includes ''<!--SNIPSTART -->'' (writeStart sample_common)
   \<and> extractWriteIDAndConfig sample_common ''<!--SNIPSTART -->'' = Inl TypeError
   \<and> getSplicedFile sample_common sample_features (sample_snippet ''a'' [''x=1''])
       (sample_file [''<!--SNIPSTART'', ''<!--SNIPEND-->'']) = Some (Inl TypeError)"
  by (simp add: scan_eval Let_def sample_defs marker_defs)

section \<open>Malformed inline configuration\<close>

lemma extractWriteIDAndConfig_bad_payload:
  assumes "js_match (writeMatchRegexp E) l = Some m" and "m 2 = Some payload"
    and "payload \<noteq> []" and "JSON_parse payload = None"
  shows "extractWriteIDAndConfig E l = Inl (SyntaxError payload)"
  using assms by (simp add: extractWriteIDAndConfig_def)

lemma splice_files_error:
  "getSplicedFile E feats snippet file = Some (Inl err) \<Longrightarrow>
     splice_files E feats snippet (file # files) = Some (Inl err)"
  by simp

lemma scan_lines_body:
  "idx < length flines \<Longrightarrow>
     scan_lines E feats snippet idx st flines =
       (case scan_body E feats snippet idx st flines of
          Inl err \<Rightarrow> Some (Inl err)
        | Inr (st', ls') \<Rightarrow> scan_lines E feats snippet (Suc idx) st' ls')"
  by (subst scan_lines.simps) (simp add: scan_body_def Let_def split: sum.splits)

text \<open>The loop goes on from the variables and the array its first \<open>k\<close> iterations left.\<close>

lemma scan_after_lines:
  "scan_after E feats snippet k flines = Some (st, ls) \<Longrightarrow>
     scan_lines E feats snippet 0 \<lparr>lookForStop = False, spliceStart = 0, config = None\<rparr> flines
       = scan_lines E feats snippet k st ls"
proof (induction k arbitrary: st ls)
  case 0
  then show ?case by simp
next
  case (Suc k)
  from Suc.prems obtain st0 ls0 where
    prev: "scan_after E feats snippet k flines = Some (st0, ls0)"
    and len: "k < length ls0"
    and body: "scan_body E feats snippet k st0 ls0 = Inr (st, ls)"
    by (auto split: option.splits if_splits sum.splits)
  from Suc.IH [OF prev] scan_lines_body [OF len, of E feats snippet st0] body
  show ?case by simp
qed

text \<open>Lines that pass leave the loop variables as they were at the start.\<close>

lemma scan_after_passes:
  "list_all (passes E snippet) pre \<Longrightarrow>
     scan_after E feats snippet (length pre) (pre @ rest)
       = Some (\<lparr>lookForStop = False, spliceStart = 0, config = None\<rparr>, pre @ rest)"
proof (induction pre arbitrary: rest rule: rev_induct)
  case Nil
  show ?case by simp
next
  case (snoc l pre)
  from snoc.prems have pre: "list_all (passes E snippet) pre" and l: "passes E snippet l"
    by simp_all
  from snoc.IH [OF pre, of "l # rest"] l show ?case
    by (simp add: scan_body_def scan_start_passes Let_def)
qed

lemma splice_files_append_error:
  "splice_files E feats snippet fs1 = Some (Inr fs1') \<Longrightarrow>
   getSplicedFile E feats snippet file = Some (Inl err) \<Longrightarrow>
     splice_files E feats snippet (fs1 @ file # fs2) = Some (Inl err)"
proof (induction fs1 arbitrary: fs1')
  case Nil
  then show ?case by simp
next
  case (Cons f fs1)
  from Cons.prems(1) obtain f' fs' where
    "getSplicedFile E feats snippet f = Some (Inr f')"
    "splice_files E feats snippet fs1 = Some (Inr fs')"
    by (auto split: option.splits sum.splits)
  with Cons.IH [OF _ Cons.prems(2)] show ?case by simp
qed

lemma spliceSnippets_append:
  "spliceSnippets E feats before files = Some (Inr files1) \<Longrightarrow>
     spliceSnippets E feats (before @ rest) files = spliceSnippets E feats rest files1"
proof (induction before arbitrary: files)
  case Nil
  then show ?case by simp
next
  case (Cons sn before)
  from Cons.prems obtain fs where
    1: "splice_files E feats sn files = Some (Inr fs)"
    and 2: "spliceSnippets E feats before fs = Some (Inr files1)"
    by (auto split: option.splits sum.splits)
  from Cons.IH [OF 2] 1 show ?case by simp
qed

text \<open>
  C8, as amended. In a run of \<open>spliceSnippets\<close>, let the Snippets \<open>before\<close> have been
  spliced into all the files, the Snippet \<open>snippet\<close> into the files \<open>fs1\<close>, and let its
  scan of the next file have run \<open>k\<close> iterations, whatever they met and spliced: it
  reaches the line at index \<open>k\<close> of the array as it is by then. When that line has the
  write-start token and its payload (the second group of the match) is not empty and
  not valid JSON, \<open>JSON.parse\<close> throws its \<open>SyntaxError\<close>; nothing catches it, so
  \<open>getSplicedFile\<close> and \<open>spliceSnippets\<close> stop with that error, whatever lines, files
  \<open>fs2\<close> and Snippets \<open>later\<close> are still to come. The error is the parser's: it is
  determined by the payload text alone, not by the line's number, its file or the
  Snippet.
\<close>

theorem malformed_payload_aborts:
  assumes "spliceSnippets E feats before files = Some (Inr (fs1 @ file # fs2))"
    and "splice_files E feats snippet fs1 = Some (Inr fs1')"
    and "scan_after E feats snippet k (file_lines file) = Some (st, ls)"
    and "k < length ls" and "str_includes (ls ! k) (writeStart E)"
    and "js_match (writeMatchRegexp E) (ls ! k) = Some m" and "m 2 = Some payload"
    and "payload \<noteq> []" and "JSON_parse payload = None"
  shows "extractWriteIDAndConfig E (ls ! k) = Inl (SyntaxError payload)
         \<and> getSplicedFile E feats snippet file = Some (Inl (SyntaxError payload))
         \<and> spliceSnippets E feats (before @ snippet # later) files
             = Some (Inl (SyntaxError payload))"
proof -
  have err: "extractWriteIDAndConfig E (ls ! k) = Inl (SyntaxError payload)"
    using assms(6-9) by (rule extractWriteIDAndConfig_bad_payload)
  have "scan_lines E feats snippet 0 \<lparr>lookForStop = False, spliceStart = 0, config = None\<rparr>
          (file_lines file) = scan_lines E feats snippet k st ls"
    using assms(3) by (rule scan_after_lines)
  also have "\<dots> = Some (Inl (SyntaxError payload))"
    using assms(4,5) err by (rule scan_lines_step_error)
  finally have g: "getSplicedFile E feats snippet file = Some (Inl (SyntaxError payload))"
    by (simp add: getSplicedFile_def)
  have "splice_files E feats snippet (fs1 @ file # fs2) = Some (Inl (SyntaxError payload))"
    using assms(2) g by (rule splice_files_append_error)
  then have "spliceSnippets E feats (snippet # later) (fs1 @ file # fs2)
               = Some (Inl (SyntaxError payload))" by simp
  with spliceSnippets_append [OF assms(1), of "snippet # later"]
  have "spliceSnippets E feats (before @ snippet # later) files
          = Some (Inl (SyntaxError payload))" by simp
  with err g show ?thesis by simp
qed

lemma sample_bad_match:
  "\<exists>m. js_match (writeMatchRegexp sample_common) ''<!--SNIPSTART c {enable_source_link: true}-->'' = Some m
       \<and> m 2 = Some ''{enable_source_link: true}''"
  by (simp add: sample_defs marker_defs)

lemma sample_bad_parse: "JSON_parse ''{enable_source_link: true}'' = None"
  by (simp add: JSON_parse_def skip_ws_def json_ws_def)

text \<open>
  The second of two files has a block \<open>a\<close>, a block \<open>b\<close> and then a start marker line
  with a payload that is not valid JSON. The scan for the Snippet \<open>b\<close> shrinks the block
  \<open>b\<close> and goes on behind the malformed line, so the first Snippet is spliced into both
  files.
\<close>

lemma sample_first_snippet_spliced:
  "spliceSnippets sample_common sample_features [sample_snippet ''b'' []]
     [sample_file [''# Title''],
      sample_file [''<!--SNIPSTART a-->'', ''old'', ''<!--SNIPEND-->'',
                   ''<!--SNIPSTART b-->'', ''x1'', ''x2'', ''x3'', ''<!--SNIPEND-->'',
                   ''<!--SNIPSTART c {enable_source_link: true}-->'', ''tail'']]
   = Some (Inr ([sample_file [''# Title'']]
        @ sample_file [''<!--SNIPSTART a-->'', ''old'', ''<!--SNIPEND-->'',
                   ''<!--SNIPSTART b-->'', ''```go'', ''```'', ''<!--SNIPEND-->'',
                   ''<!--SNIPSTART c {enable_source_link: true}-->'', ''tail''] # []))"
  by (simp add: scan_eval Let_def sample_defs marker_defs)

lemma sample_first_file_spliced:
  "splice_files sample_common sample_features (sample_snippet ''a'' []) [sample_file [''# Title'']]
   = Some (Inr [sample_file [''# Title'']])"
  by (simp add: scan_eval Let_def sample_defs marker_defs)

text \<open>
  The scan for the Snippet \<open>a\<close> splices the block \<open>a\<close>, which grows by one line, and
  after eight iterations is at the malformed line.
\<close>

lemma sample_scan_after:
  "scan_after sample_common sample_features (sample_snippet ''a'' []) 8
     (file_lines (sample_file [''<!--SNIPSTART a-->'', ''old'', ''<!--SNIPEND-->'',
                   ''<!--SNIPSTART b-->'', ''```go'', ''```'', ''<!--SNIPEND-->'',
                   ''<!--SNIPSTART c {enable_source_link: true}-->'', ''tail'']))
   = Some (\<lparr>lookForStop = False, spliceStart = 1, config = None\<rparr>,
           [''<!--SNIPSTART a-->'', ''```go'', ''```'', ''<!--SNIPEND-->'',
            ''<!--SNIPSTART b-->'', ''```go'', ''```'', ''<!--SNIPEND-->'',
            ''<!--SNIPSTART c {enable_source_link: true}-->'', ''tail''])"
  by (simp add: eval_nat_numeral scan_body_def scan_eval Let_def sample_defs marker_defs)

theorem malformed_payload_aborts_witness:
  "spliceSnippets sample_common sample_features
     [sample_snippet ''b'' [], sample_snippet ''a'' [], sample_snippet ''c'' [''x=1'']]
     [sample_file [''# Title''],
      sample_file [''<!--SNIPSTART a-->'', ''old'', ''<!--SNIPEND-->'',
                   ''<!--SNIPSTART b-->'', ''x1'', ''x2'', ''x3'', ''<!--SNIPEND-->'',
                   ''<!--SNIPSTART c {enable_source_link: true}-->'', ''tail'']]
   = Some (Inl (SyntaxError ''{enable_source_link: true}''))"
proof -
  let ?ls = "[''<!--SNIPSTART a-->'', ''```go'', ''```'', ''<!--SNIPEND-->'',
            ''<!--SNIPSTART b-->'', ''```go'', ''```'', ''<!--SNIPEND-->'',
            ''<!--SNIPSTART c {enable_source_link: true}-->'', ''tail'']"
  obtain m where m: "js_match (writeMatchRegexp sample_common)
        ''<!--SNIPSTART c {enable_source_link: true}-->'' = Some m"
      "m 2 = Some ''{enable_source_link: true}''"
    using sample_bad_match by blast
  have 4: "8 < length ?ls" by simp
  have 5: "str_includes (?ls ! 8) (writeStart sample_common)"
    by (simp add: sample_defs)
  have 6: "js_match (writeMatchRegexp sample_common) (?ls ! 8) = Some m"
    using m(1) by simp
  have 8: "''{enable_source_link: true}'' \<noteq> []" by simp
  from malformed_payload_aborts
    [OF sample_first_snippet_spliced sample_first_file_spliced sample_scan_after
        4 5 6 m(2) 8 sample_bad_parse, of "[sample_snippet ''c'' [''x=1'']]"]
  show ?thesis by simp
qed

text \<open>
  C8 as stated fails: the line below has a payload that is not valid JSON (a
  second line with another identifier gives the same error), and with no Snippet to
  splice the run returns the files as they are; \<open>getClearedFile\<close> does not parse it either.
\<close>

theorem malformed_payload_counterexample:
  "extractWriteIDAndConfig sample_common ''<!--SNIPSTART a {-->'' = Inl (SyntaxError ''{'')
   \<and> extractWriteIDAndConfig sample_common ''<!--SNIPSTART b {-->'' = Inl (SyntaxError ''{'')
   \<and> spliceSnippets sample_common sample_features []
       [sample_file [''<!--SNIPSTART a {-->'', ''old'', ''<!--SNIPEND-->'']]
     = Some (Inr [sample_file [''<!--SNIPSTART a {-->'', ''old'', ''<!--SNIPEND-->'']])
   \<and> getClearedFile sample_common
       (sample_file [''<!--SNIPSTART a {-->'', ''old'', ''<!--SNIPEND-->''])
     = sample_file [''<!--SNIPSTART a {-->'', ''<!--SNIPEND-->'']"
  by (simp add: getClearedFile_def JSON_parse_def skip_ws_def json_ws_def Let_def
        sample_defs marker_defs)

section \<open>Clear\<close>

lemma clear_lines_acc:
  "clear_lines E omit acc ls = acc @ clear_lines E omit [] ls"
proof (induction ls arbitrary: omit acc)
  case Nil
  then show ?case by simp
next
  case (Cons l rest)
  let ?omit1 = "if str_includes l (writeEnd E) then False else omit"
  let ?omit2 = "if str_includes l (writeStart E) then True else ?omit1"
  have "clear_lines E omit acc (l # rest)
          = clear_lines E ?omit2 (if \<not> ?omit1 then acc @ [l] else acc) rest"
    by (simp add: Let_def)
  also have "\<dots> = (if \<not> ?omit1 then acc @ [l] else acc) @ clear_lines E ?omit2 [] rest"
    by (rule Cons.IH)
  also have "\<dots> = acc @ (if \<not> ?omit1 then [l] else []) @ clear_lines E ?omit2 [] rest"
    by simp
  also have "(if \<not> ?omit1 then [l] else []) @ clear_lines E ?omit2 [] rest
               = clear_lines E ?omit2 (if \<not> ?omit1 then [] @ [l] else []) rest"
    using Cons.IH [of ?omit2 "if \<not> ?omit1 then [] @ [l] else []"] by simp
  also have "\<dots> = clear_lines E omit [] (l # rest)"
    by (simp add: Let_def)
  finally show ?case .
qed

lemma clear_lines_Cons:
  "clear_lines E omit [] (l # rest) =
     (if str_includes l (writeEnd E) \<or> \<not> omit then [l] else [])
     @ clear_lines E (str_includes l (writeStart E) \<or> (\<not> str_includes l (writeEnd E) \<and> omit))
         [] rest"
proof -
  let ?omit1 = "if str_includes l (writeEnd E) then False else omit"
  let ?omit2 = "if str_includes l (writeStart E) then True else ?omit1"
  have "clear_lines E omit [] (l # rest)
          = clear_lines E ?omit2 (if \<not> ?omit1 then [l] else []) rest"
    by (simp add: Let_def)
  also have "\<dots> = (if \<not> ?omit1 then [l] else []) @ clear_lines E ?omit2 [] rest"
    by (rule clear_lines_acc)
  also have "?omit2 = (str_includes l (writeStart E) \<or> (\<not> str_includes l (writeEnd E) \<and> omit))"
    by simp
  finally show ?thesis by (simp split: if_splits)
qed

text \<open>Inside a block: the interior is dropped, the end marker line is kept.\<close>

lemma clear_lines_interior:
  assumes "list_all (\<lambda>l. \<not> str_includes l (writeEnd E)) ints"
    and "str_includes e (writeEnd E)" and "\<not> str_includes e (writeStart E)"
  shows "clear_lines E True [] (ints @ e # rest) = e # clear_lines E False [] rest"
  using assms(1)
proof (induction ints)
  case Nil
  then show ?case using assms(2,3)
    by (simp add: clear_lines_Cons del: clear_lines.simps(2))
next
  case (Cons l ints)
  then show ?case by (simp add: clear_lines_Cons del: clear_lines.simps(2))
qed

lemma clear_lines_seg:
  assumes "clear_seg E x"
  shows "clear_lines E False [] (seg_lines x @ rest)
           = seg_lines (emptied x) @ clear_lines E False [] rest"
proof (cases x)
  case (Line l)
  with assms show ?thesis by (simp add: clear_lines_Cons del: clear_lines.simps(2))
next
  case (Block s ints e)
  with assms have "clear_lines E True [] (ints @ e # rest) = e # clear_lines E False [] rest"
    by (intro clear_lines_interior) simp_all
  with Block assms show ?thesis by (simp add: clear_lines_Cons del: clear_lines.simps(2))
qed

lemma clear_lines_flat:
  "list_all (clear_seg E) segs \<Longrightarrow>
     clear_lines E False [] (flat segs) = flat (map emptied segs)"
proof (induction segs)
  case Nil
  then show ?case by (simp add: flat_def)
next
  case (Cons x segs)
  then have "clear_lines E False [] (seg_lines x @ flat segs)
               = seg_lines (emptied x) @ clear_lines E False [] (flat segs)"
    by (intro clear_lines_seg) simp
  with Cons show ?case by (simp add: flat_def)
qed

text \<open>
  A second pass keeps every line the first pass kept: whenever the second pass is
  omitting, the first one was.
\<close>

lemma clear_lines_twice:
  "(o2 \<longrightarrow> o1) \<Longrightarrow>
     clear_lines E o2 [] (clear_lines E o1 [] ls) = clear_lines E o1 [] ls"
proof (induction ls arbitrary: o1 o2)
  case Nil
  then show ?case by simp
next
  case (Cons l rest)
  let ?n1 = "str_includes l (writeStart E) \<or> (\<not> str_includes l (writeEnd E) \<and> o1)"
  show ?case
  proof (cases "str_includes l (writeEnd E) \<or> \<not> o1")
    case True
    let ?n2 = "str_includes l (writeStart E) \<or> (\<not> str_includes l (writeEnd E) \<and> o2)"
    from True Cons.prems have kept2: "str_includes l (writeEnd E) \<or> \<not> o2" by blast
    from True Cons.prems have "?n2 \<longrightarrow> ?n1" by blast
    then have "clear_lines E ?n2 [] (clear_lines E ?n1 [] rest) = clear_lines E ?n1 [] rest"
      by (rule Cons.IH)
    with True kept2 show ?thesis by (simp add: clear_lines_Cons del: clear_lines.simps(2))
  next
    case False
    then have n1: "?n1 = True" by simp
    have "clear_lines E o2 [] (clear_lines E True [] rest) = clear_lines E True [] rest"
      by (rule Cons.IH) simp
    with False show ?thesis by (simp add: clear_lines_Cons del: clear_lines.simps(2))
  qed
qed

text \<open>
  C5. Clearing a target file empties every write block: a file that is a sequence of
  lines without the write-start token and of blocks (a line with the write-start token,
  any interior without the write-end token, a line with the write-end token) becomes the
  same sequence with every interior dropped, whatever the interiors and the identifiers
  were. Clearing takes no Snippet, and clearing a cleared file changes nothing, for every
  file.
\<close>

theorem clear_empties_every_block:
  "(list_all (clear_seg E) segs \<longrightarrow>
      getClearedFile E (file\<lparr>file_lines := flat segs\<rparr>)
        = file\<lparr>file_lines := flat (map emptied segs)\<rparr>)
   \<and> getClearedFile E (getClearedFile E file) = getClearedFile E file
   \<and> clearSnippets E (clearSnippets E files) = clearSnippets E files"
proof (intro conjI impI)
  assume "list_all (clear_seg E) segs"
  then show "getClearedFile E (file\<lparr>file_lines := flat segs\<rparr>)
               = file\<lparr>file_lines := flat (map emptied segs)\<rparr>"
    by (simp add: getClearedFile_def clear_lines_flat)
next
  show twice: "getClearedFile E (getClearedFile E f) = getClearedFile E f" for f
    by (simp add: getClearedFile_def clear_lines_twice)
  show "clearSnippets E (clearSnippets E files) = clearSnippets E files"
    by (simp add: clearSnippets_def twice)
qed

theorem clear_empties_every_block_witness:
  "getClearedFile sample_common
     (sample_file [''# Title'', ''<!--SNIPSTART a-->'', ''```go'', ''x=1'', ''```'',
                   ''<!--SNIPEND-->'', ''text'', ''<!--SNIPSTART'', ''stale'',
                   ''<!--SNIPEND-->''])
   = sample_file [''# Title'', ''<!--SNIPSTART a-->'', ''<!--SNIPEND-->'', ''text'',
                  ''<!--SNIPSTART'', ''<!--SNIPEND-->'']"
proof -
  let ?segs = "[Line ''# Title'',
                Block ''<!--SNIPSTART a-->'' [''```go'', ''x=1'', ''```''] ''<!--SNIPEND-->'',
                Line ''text'', Block ''<!--SNIPSTART'' [''stale''] ''<!--SNIPEND-->'']"
  have wf: "list_all (clear_seg sample_common) ?segs"
    by (simp add: sample_defs)
  from clear_empties_every_block [of sample_common ?segs "sample_file []"] wf
  have "getClearedFile sample_common ((sample_file [])\<lparr>file_lines := flat ?segs\<rparr>)
          = (sample_file [])\<lparr>file_lines := flat (map emptied ?segs)\<rparr>"
    by blast
  then show ?thesis by (simp add: flat_def sample_file_def)
qed

section \<open>Extraction\<close>

lemma rx_matches_Lit_no_prefix:
  "\<not> prefix t s \<Longrightarrow> rx_matches (Lit t # rs) s c = []"
  by simp

lemma js_match_skip:
  assumes "\<forall>p<length pre. rx_matches re (drop p (pre @ s)) (\<lambda>_. None) = []"
  shows "js_match re (pre @ s) = js_match re s"
  using assms
proof (induction pre)
  case Nil
  then show ?case by simp
next
  case (Cons x pre)
  from Cons.prems have "rx_matches re (drop 0 ((x # pre) @ s)) (\<lambda>_. None) = []"
    by (metis length_greater_0_conv list.distinct(1))
  then have here: "js_match re ((x # pre) @ s) = js_match re (pre @ s)" by simp
  have "\<forall>p<length pre. rx_matches re (drop p (pre @ s)) (\<lambda>_. None) = []"
  proof (intro allI impI)
    fix p assume "p < length pre"
    then have "Suc p < length (x # pre)" by simp
    with Cons.prems have "rx_matches re (drop (Suc p) ((x # pre) @ s)) (\<lambda>_. None) = []"
      by blast
    then show "rx_matches re (drop p (pre @ s)) (\<lambda>_. None) = []" by simp
  qed
  with Cons.IH here show ?case by simp
qed

lemma js_match_here:
  "rx_matches re s (\<lambda>_. None) = (r, c) # alts \<Longrightarrow> js_match re s = Some c"
  by (cases s) simp_all

lemma rev_upt_from_1: "0 < k \<Longrightarrow> rev [1 ..< Suc k] = k # rev [1 ..< k]"
  by simp

lemma takeWhile_token:
  assumes "list_all P tok" and "rest = [] \<or> \<not> P (hd rest)"
  shows "takeWhile P (tok @ rest) = tok"
proof -
  have "takeWhile P rest = []" using assms(2) by (cases rest) auto
  with assms(1) show ?thesis by (simp add: list_all_iff takeWhile_append2)
qed

lemma rx_matches_plus_group:
  assumes "tok \<noteq> []" and "list_all P tok" and "rest = [] \<or> \<not> P (hd rest)"
  shows "\<exists>alts. rx_matches [Grp i [Plus P]] (tok @ rest) c = (rest, c(i \<mapsto> tok)) # alts"
proof -
  have tw: "takeWhile P (tok @ rest) = tok" using assms(2,3) by (rule takeWhile_token)
  have k: "0 < length tok" using assms(1) by simp
  have "rx_matches [Plus P] (tok @ rest) c
          = concat (map (\<lambda>n. [(drop n (tok @ rest), c)]) (length tok # rev [1 ..< length tok]))"
    using rev_upt_from_1 [OF k] by (simp add: tw del: upt_Suc)
  then have "rx_matches [Plus P] (tok @ rest) c
          = (rest, c) # concat (map (\<lambda>n. [(drop n (tok @ rest), c)]) (rev [1 ..< length tok]))"
    by simp
  then show ?thesis by simp
qed

lemma rx_matches_read:
  assumes "sp \<noteq> []" and "list_all rx_space sp"
    and "tok \<noteq> []" and "list_all rx_nonspace tok" and "rest = [] \<or> rx_space (hd rest)"
  shows "\<exists>alts. rx_matches (readMatchRegexp E) (readStart E @ sp @ tok @ rest) c
                  = (rest, c(1 \<mapsto> tok)) # alts"
proof -
  have "\<not> rx_space (hd (tok @ rest))"
    using assms(3,4) by (cases tok) (simp_all add: rx_nonspace_def)
  then have tw: "takeWhile rx_space (sp @ tok @ rest) = sp"
    using assms(2,3) by (intro takeWhile_token) simp_all
  have k: "0 < length sp" using assms(1) by simp
  from rx_matches_plus_group [of tok rx_nonspace rest 1 c] assms(3-5)
  obtain alts where g: "rx_matches [Grp 1 [Plus rx_nonspace]] (tok @ rest) c
      = (rest, c(1 \<mapsto> tok)) # alts"
    by (auto simp: rx_nonspace_def)
  have "rx_matches (readMatchRegexp E) (readStart E @ sp @ tok @ rest) c
          = concat (map (\<lambda>n. rx_matches [Grp 1 [Plus rx_nonspace]] (drop n (sp @ tok @ rest)) c)
                        (length sp # rev [1 ..< length sp]))"
    using rev_upt_from_1 [OF k] by (simp add: readMatchRegexp_def tw del: upt_Suc rx_matches.simps(5))
  also have "\<dots> = rx_matches [Grp 1 [Plus rx_nonspace]] (tok @ rest) c
      @ concat (map (\<lambda>n. rx_matches [Grp 1 [Plus rx_nonspace]] (drop n (sp @ tok @ rest)) c)
                        (rev [1 ..< length sp]))"
    by (simp del: rx_matches.simps(5))
  finally show ?thesis using g by simp
qed

text \<open>
  The identifier of a read-start line: the run of characters other than white space that
  follows the first read-start token and the white space after it.
\<close>

lemma extractReadID_token:
  assumes "\<forall>p<length pre. \<not> prefix (readStart E) (drop p (pre @ readStart E @ sp @ tok @ rest))"
    and "sp \<noteq> []" and "list_all rx_space sp"
    and "tok \<noteq> []" and "list_all rx_nonspace tok" and "rest = [] \<or> rx_space (hd rest)"
  shows "extractReadID E (pre @ readStart E @ sp @ tok @ rest) = Inr (Some tok)"
proof -
  let ?s = "readStart E @ sp @ tok @ rest"
  have "\<forall>p<length pre. rx_matches (readMatchRegexp E) (drop p (pre @ ?s)) (\<lambda>_. None) = []"
    using assms(1) by (simp add: readMatchRegexp_def)
  then have skip: "js_match (readMatchRegexp E) (pre @ ?s) = js_match (readMatchRegexp E) ?s"
    by (rule js_match_skip)
  obtain alts where "rx_matches (readMatchRegexp E) ?s (\<lambda>_. None)
      = (rest, (\<lambda>_. None)(1 \<mapsto> tok)) # alts"
    using rx_matches_read [OF assms(2-6)] by blast
  then have "js_match (readMatchRegexp E) ?s = Some ((\<lambda>_. None)(1 \<mapsto> tok))"
    by (rule js_match_here)
  with skip show ?thesis by (simp add: extractReadID_def)
qed

lemma extract_line_plain:
  "read_plain E l \<Longrightarrow> \<not> capture st \<Longrightarrow> extract_line E e ow rp rf item st l = Inr st"
  by (simp add: extract_line_def read_plain_def)

lemma extract_line_start:
  assumes "str_includes l (readStart E)" and "\<not> str_includes l (readEnd E)"
    and "read_id E l = Some i" and "\<not> capture st"
  shows "extract_line E e ow rp rf item st l
           = Inr (st\<lparr>capture := True,
                     fileSnips := fileSnips st @ [new_Snippet i e ow rp rf item]\<rparr>)"
  using assms by (auto simp: extract_line_def read_id_def split: sum.splits option.splits)

lemma extract_line_captured:
  assumes "read_plain E l" and "capture st" and "fileSnipsCount st = length snips"
    and "fileSnips st = snips @ [sn]"
  shows "extract_line E e ow rp rf item st l
           = Inr (st\<lparr>fileSnips := snips @ [sn\<lparr>lines := lines sn @ [l]\<rparr>]\<rparr>)"
  using assms by (simp add: extract_line_def read_plain_def nth_append)

lemma extract_line_end:
  assumes "str_includes l (readEnd E)" and "\<not> str_includes l (readStart E)"
  shows "extract_line E e ow rp rf item st l
           = Inr (st\<lparr>capture := False, fileSnipsCount := fileSnipsCount st + 1\<rparr>)"
  using assms by (simp add: extract_line_def)

lemma extract_lines_interior:
  assumes "list_all (read_plain E) ints"
    and "str_includes z (readEnd E)" and "\<not> str_includes z (readStart E)"
  shows "extract_lines E e ow rp rf item
           \<lparr>capture = True, fileSnipsCount = length snips, fileSnips = snips @ [sn]\<rparr>
           (ints @ z # rest)
         = extract_lines E e ow rp rf item
           \<lparr>capture = False, fileSnipsCount = length snips + 1,
            fileSnips = snips @ [sn\<lparr>lines := lines sn @ ints\<rparr>]\<rparr> rest"
  using assms(1)
proof (induction ints arbitrary: sn)
  case Nil
  show ?case using assms(2,3) by (simp add: extract_line_end)
next
  case (Cons l ints)
  let ?st = "\<lparr>capture = True, fileSnipsCount = length snips, fileSnips = snips @ [sn]\<rparr>"
  have "extract_line E e ow rp rf item ?st l
          = Inr (?st\<lparr>fileSnips := snips @ [sn\<lparr>lines := lines sn @ [l]\<rparr>]\<rparr>)"
    using Cons.prems by (intro extract_line_captured) simp_all
  moreover have "extract_lines E e ow rp rf item
           \<lparr>capture = True, fileSnipsCount = length snips,
            fileSnips = snips @ [sn\<lparr>lines := lines sn @ [l]\<rparr>]\<rparr> (ints @ z # rest)
         = extract_lines E e ow rp rf item
           \<lparr>capture = False, fileSnipsCount = length snips + 1,
            fileSnips = snips @ [(sn\<lparr>lines := lines sn @ [l]\<rparr>)
                                   \<lparr>lines := lines (sn\<lparr>lines := lines sn @ [l]\<rparr>) @ ints\<rparr>]\<rparr> rest"
    using Cons.prems by (intro Cons.IH) simp
  ultimately show ?case by simp
qed

lemma extract_lines_seg:
  assumes "read_seg E x"
  shows "extract_lines E (determineExtension (name item)) ow rp rf item
           \<lparr>capture = False, fileSnipsCount = length snips, fileSnips = snips\<rparr>
           (seg_lines x @ rest)
         = extract_lines E (determineExtension (name item)) ow rp rf item
           \<lparr>capture = False,
            fileSnipsCount = length (snips @ seg_snippets E ow rp rf item x),
            fileSnips = snips @ seg_snippets E ow rp rf item x\<rparr> rest"
proof (cases x)
  case (Line l)
  with assms show ?thesis by (simp add: extract_line_plain)
next
  case (Block s ints z)
  with assms obtain i where i: "read_id E s = Some i" by auto
  let ?e = "determineExtension (name item)"
  let ?st = "\<lparr>capture = False, fileSnipsCount = length snips, fileSnips = snips\<rparr>"
  have start: "extract_line E ?e ow rp rf item ?st s
      = Inr (?st\<lparr>capture := True, fileSnips := fileSnips ?st @ [new_Snippet i ?e ow rp rf item]\<rparr>)"
    using assms Block i by (intro extract_line_start) simp_all
  have "extract_lines E ?e ow rp rf item
           \<lparr>capture = True, fileSnipsCount = length snips,
            fileSnips = snips @ [new_Snippet i ?e ow rp rf item]\<rparr> (ints @ z # rest)
         = extract_lines E ?e ow rp rf item
           \<lparr>capture = False, fileSnipsCount = length snips + 1,
            fileSnips = snips @ [(new_Snippet i ?e ow rp rf item)
               \<lparr>lines := lines (new_Snippet i ?e ow rp rf item) @ ints\<rparr>]\<rparr> rest"
    using assms Block by (intro extract_lines_interior) simp_all
  with start Block i show ?thesis by (simp add: new_Snippet_def)
qed

lemma extract_lines_flat:
  "list_all (read_seg E) segs \<Longrightarrow>
     extract_lines E (determineExtension (name item)) ow rp rf item
       \<lparr>capture = False, fileSnipsCount = length snips, fileSnips = snips\<rparr> (flat segs)
     = Inr \<lparr>capture = False,
            fileSnipsCount = length (snips @ concat (map (seg_snippets E ow rp rf item) segs)),
            fileSnips = snips @ concat (map (seg_snippets E ow rp rf item) segs)\<rparr>"
proof (induction segs arbitrary: snips)
  case Nil
  then show ?case by (simp add: flat_def)
next
  case (Cons x segs)
  from Cons.prems have x: "read_seg E x" and segs: "list_all (read_seg E) segs" by simp_all
  have "extract_lines E (determineExtension (name item)) ow rp rf item
       \<lparr>capture = False, fileSnipsCount = length snips, fileSnips = snips\<rparr> (flat (x # segs))
     = extract_lines E (determineExtension (name item)) ow rp rf item
           \<lparr>capture = False,
            fileSnipsCount = length (snips @ seg_snippets E ow rp rf item x),
            fileSnips = snips @ seg_snippets E ow rp rf item x\<rparr> (flat segs)"
    using extract_lines_seg [OF x, of item ow rp rf snips "flat segs"] by (simp add: flat_def)
  also note Cons.IH [OF segs, of "snips @ seg_snippets E ow rp rf item x"]
  finally show ?case by simp
qed

text \<open>
  A source file that is a sequence of lines without read tokens and of read blocks
  (a read-start line on which \<open>readMatchRegexp\<close> finds an identifier, interior lines
  without read tokens, a read-end line) yields one Snippet per block, in order: its
  identifier is the one read from the start line, its extension the one of the file name,
  its lines exactly the interior. On a start line, the identifier is the run of
  characters other than white space that follows the first read-start token and the
  white space after it.
\<close>

lemma extractFile_paired_blocks:
  "(list_all (read_seg E) segs \<longrightarrow>
      extractFile E ow rp rf item (flat segs)
        = Inr (concat (map (seg_snippets E ow rp rf item) segs)))
   \<and> ((\<forall>p<length pre. \<not> prefix (readStart E) (drop p (pre @ readStart E @ sp @ tok @ rest)))
        \<and> sp \<noteq> [] \<and> list_all rx_space sp \<and> tok \<noteq> [] \<and> list_all rx_nonspace tok
        \<and> (rest = [] \<or> rx_space (hd rest))
      \<longrightarrow> read_id E (pre @ readStart E @ sp @ tok @ rest) = Some tok)"
proof (intro conjI impI)
  assume "list_all (read_seg E) segs"
  from extract_lines_flat [OF this, of item ow rp rf "[]"]
  show "extractFile E ow rp rf item (flat segs)
          = Inr (concat (map (seg_snippets E ow rp rf item) segs))"
    by (simp add: extractFile_def)
next
  assume "(\<forall>p<length pre. \<not> prefix (readStart E) (drop p (pre @ readStart E @ sp @ tok @ rest)))
        \<and> sp \<noteq> [] \<and> list_all rx_space sp \<and> tok \<noteq> [] \<and> list_all rx_nonspace tok
        \<and> (rest = [] \<or> rx_space (hd rest))"
  then have "extractReadID E (pre @ readStart E @ sp @ tok @ rest) = Inr (Some tok)"
    by (intro extractReadID_token) simp_all
  then show "read_id E (pre @ readStart E @ sp @ tok @ rest) = Some tok"
    by (simp add: read_id_def)
qed


lemma sample_read_hello: "read_id sample_common ''// @@@SNIPSTART hello'' = Some ''hello''"
  by (simp add: read_id_def sample_defs marker_defs)

lemma sample_read_bye: "read_id sample_common ''@@@SNIPSTART bye now'' = Some ''bye''"
  by (simp add: read_id_def sample_defs marker_defs)

lemma extractFile_paired_blocks_example:
  "extractFile sample_common ''o'' ''r'' None sample_path
     [''package main'', ''// @@@SNIPSTART hello'', ''func main() {'', ''}'', ''// @@@SNIPEND'',
      ''@@@SNIPSTART bye now'', ''@@@SNIPEND'']
   = Inr [sample_snippet ''hello'' [''func main() {'', ''}''], sample_snippet ''bye'' []]
   \<and> read_id sample_common (''// '' @ readStart sample_common @ '' '' @ ''hello'' @ [])
       = Some ''hello''"
proof -
  let ?segs = "[Line ''package main'',
                Block ''// @@@SNIPSTART hello'' [''func main() {'', ''}''] ''// @@@SNIPEND'',
                Block ''@@@SNIPSTART bye now'' [] ''@@@SNIPEND'']"
  note inst = extractFile_paired_blocks
    [of sample_common ?segs "''o''" "''r''" None sample_path "''// ''" "'' ''" "''hello''" "[]"]
  have rs: "readStart sample_common = ''@@@SNIPSTART''" "readEnd sample_common = ''@@@SNIPEND''"
    by (simp_all add: sample_defs)
  have wf: "list_all (read_seg sample_common) ?segs"
    by (simp add: sample_read_hello sample_read_bye read_plain_def rs)
  from inst wf have "extractFile sample_common ''o'' ''r'' None sample_path (flat ?segs)
        = Inr (concat (map (seg_snippets sample_common ''o'' ''r'' None sample_path) ?segs))"
    by blast
  then have first: "extractFile sample_common ''o'' ''r'' None sample_path
     [''package main'', ''// @@@SNIPSTART hello'', ''func main() {'', ''}'', ''// @@@SNIPEND'',
      ''@@@SNIPSTART bye now'', ''@@@SNIPEND'']
   = Inr [sample_snippet ''hello'' [''func main() {'', ''}''], sample_snippet ''bye'' []]"
    by (simp add: flat_def sample_read_hello sample_read_bye)
       (simp add: sample_snippet_def new_Snippet_def sample_path_def determineExtension_def)
  have pos: "\<forall>p<length ''// ''. \<not> prefix (readStart sample_common)
               (drop p (''// '' @ readStart sample_common @ '' '' @ ''hello'' @ []))"
    by (simp add: rs less_Suc_eq numeral_3_eq_3)
  have "'' '' \<noteq> [] \<and> list_all rx_space '' '' \<and> ''hello'' \<noteq> [] \<and> list_all rx_nonspace ''hello''
        \<and> (([] :: string) = [] \<or> rx_space (hd []))"
    by (simp add: rx_space_def rx_nonspace_def)
  with inst pos have "read_id sample_common (''// '' @ readStart sample_common @ '' '' @ ''hello'' @ [])
       = Some ''hello''"
    by blast
  with first show ?thesis by blast
qed

lemma seg_snippets_fields:
  "read_id E s = Some i \<Longrightarrow>
     seg_snippets E ow rp rf item (Block s ints e)
       = [\<lparr>snippet_id = i, ext = determineExtension (name item), owner = ow, repo = rp,
           ref = rf, filePath = item, lines = ints\<rparr>]"
  by (simp add: new_Snippet_def)

lemma extract_lines_plain:
  "list_all (read_plain E) mid \<Longrightarrow> \<not> capture st \<Longrightarrow>
     extract_lines E e ow rp rf item st (mid @ rest) = extract_lines E e ow rp rf item st rest"
  by (induction mid) (simp_all add: extract_line_plain)

lemma extract_lines_flat_then:
  "list_all (read_seg E) segs \<Longrightarrow>
     extract_lines E (determineExtension (name item)) ow rp rf item
       \<lparr>capture = False, fileSnipsCount = length snips, fileSnips = snips\<rparr> (flat segs @ rest)
     = extract_lines E (determineExtension (name item)) ow rp rf item
        \<lparr>capture = False,
         fileSnipsCount = length (snips @ concat (map (seg_snippets E ow rp rf item) segs)),
         fileSnips = snips @ concat (map (seg_snippets E ow rp rf item) segs)\<rparr> rest"
proof (induction segs arbitrary: snips)
  case Nil
  then show ?case by (simp add: flat_def)
next
  case (Cons x segs)
  from Cons.prems have x: "read_seg E x" and segs: "list_all (read_seg E) segs" by simp_all
  have "extract_lines E (determineExtension (name item)) ow rp rf item
       \<lparr>capture = False, fileSnipsCount = length snips, fileSnips = snips\<rparr>
       (flat (x # segs) @ rest)
     = extract_lines E (determineExtension (name item)) ow rp rf item
           \<lparr>capture = False,
            fileSnipsCount = length (snips @ seg_snippets E ow rp rf item x),
            fileSnips = snips @ seg_snippets E ow rp rf item x\<rparr> (flat segs @ rest)"
    using extract_lines_seg [OF x, of item ow rp rf snips "flat segs @ rest"]
    by (simp add: flat_def)
  also note Cons.IH [OF segs, of "snips @ seg_snippets E ow rp rf item x"]
  finally show ?case by simp
qed

lemma extract_line_no_element:
  assumes "\<not> str_includes x (readEnd E)" and "capture st"
    and "length (fileSnips st) \<le> fileSnipsCount st"
  shows "extract_line E e ow rp rf item st x = Inl TypeError"
  using assms by (simp add: extract_line_def)

text \<open>
  A read-end line met while no Snippet is being captured still increments
  \<open>fileSnipsCount\<close>. From then on the counter is ahead of the array: the line after the
  next read-start line is pushed onto an element that does not exist, which throws a
  \<open>TypeError\<close>, whatever proper pairs came before and whatever follows.
\<close>

lemma stray_read_end_throws:
  assumes "list_all (read_seg E) segs"
    and "str_includes z (readEnd E)" and "\<not> str_includes z (readStart E)"
    and "list_all (read_plain E) mid"
    and "str_includes s (readStart E)" and "\<not> str_includes s (readEnd E)"
    and "read_id E s = Some i"
    and "\<not> str_includes x (readEnd E)"
  shows "extractFile E ow rp rf item (flat segs @ z # mid @ s # x # rest) = Inl TypeError"
proof -
  let ?e = "determineExtension (name item)"
  let ?snips = "concat (map (seg_snippets E ow rp rf item) segs)"
  let ?st0 = "\<lparr>capture = False, fileSnipsCount = length ?snips, fileSnips = ?snips\<rparr>"
  let ?st1 = "?st0\<lparr>capture := False, fileSnipsCount := fileSnipsCount ?st0 + 1\<rparr>"
  let ?st2 = "?st1\<lparr>capture := True,
                    fileSnips := fileSnips ?st1 @ [new_Snippet i ?e ow rp rf item]\<rparr>"
  have "extract_lines E ?e ow rp rf item
          \<lparr>capture = False, fileSnipsCount = 0, fileSnips = []\<rparr>
          (flat segs @ z # mid @ s # x # rest)
        = extract_lines E ?e ow rp rf item ?st0 (z # mid @ s # x # rest)"
    using extract_lines_flat_then [OF assms(1), of item ow rp rf "[]"] by simp
  also have "\<dots> = extract_lines E ?e ow rp rf item ?st1 (mid @ s # x # rest)"
    using extract_line_end [OF assms(2,3), of ?e ow rp rf item ?st0] by simp
  also have "\<dots> = extract_lines E ?e ow rp rf item ?st1 (s # x # rest)"
    using assms(4) by (intro extract_lines_plain) simp_all
  also have "\<dots> = extract_lines E ?e ow rp rf item ?st2 (x # rest)"
    using extract_line_start [OF assms(5,6,7), of ?st1 ?e ow rp rf item] by simp
  also have "\<dots> = Inl TypeError"
    using extract_line_no_element [OF assms(8), of ?st2 ?e ow rp rf item] by simp
  finally show ?thesis by (simp add: extractFile_def)
qed

text \<open>
  C6. A source file with one read-start/read-end pair yields the Snippet of that pair:
  its identifier is the token after the read-start marker, its lines the two lines
  between the marker lines. The same file after a first line that contains the read-end
  token (there is still one pair) yields no Snippet: extraction throws a \<open>TypeError\<close> at
  the first line of the pair's interior.
\<close>

theorem stray_read_end_before_pair_throws:
  "extractFile sample_common ''o'' ''r'' None sample_path
     [''// @@@SNIPSTART hello'', ''func main() {'', ''}'', ''// @@@SNIPEND'']
   = Inr [\<lparr>snippet_id = ''hello'', ext = ''go'', owner = ''o'', repo = ''r'', ref = None,
           filePath = sample_path, lines = [''func main() {'', ''}'']\<rparr>]
   \<and> extractFile sample_common ''o'' ''r'' None sample_path
     [''// see @@@SNIPEND below'',
      ''// @@@SNIPSTART hello'', ''func main() {'', ''}'', ''// @@@SNIPEND'']
   = Inl TypeError"
  by (simp add: extractFile_def extract_line_def determineExtension_def Let_def
        sample_defs marker_defs)

section \<open>The scan on a well-formed target file\<close>

lemma write_plain_passes: "write_plain E l \<Longrightarrow> passes E snippet l"
  by (simp add: write_plain_def passes_def)

lemma no_start_passes: "\<not> str_includes l (writeStart E) \<Longrightarrow> passes E snippet l"
  by (simp add: passes_def)

lemma write_seg_start:
  assumes "write_seg E (Block s ints e)"
  shows "(write_id E s = Some (snippet_id snippet) \<and> opens E snippet s (write_config E s))
         \<or> (write_id E s \<noteq> Some (snippet_id snippet) \<and> passes E snippet s)"
proof -
  from assms obtain i c where ex: "extractWriteIDAndConfig E s = Inr (i, c)"
    by (cases "extractWriteIDAndConfig E s") auto
  from assms have "str_includes s (writeStart E)" by simp
  with ex show ?thesis
    by (auto simp: write_id_def write_config_def opens_def passes_def)
qed

lemma spliced_seg_refl: "spliced_seg E feats snippet x x"
  by (cases x) simp_all

lemma list_all2_spliced_refl: "list_all2 (spliced_seg E feats snippet) segs segs"
  by (simp add: list_all2_refl spliced_seg_refl)

lemma flat_Cons: "flat (x # segs) = seg_lines x @ flat segs"
  by (simp add: flat_def)

lemma flat_append: "flat (xs @ ys) = flat xs @ flat ys"
  by (simp add: flat_def)

text \<open>
  Reading on from any index of a well-formed file: the lines from there to the next
  region boundary have no write-start token.
\<close>

lemma drop_flat:
  assumes "list_all (write_seg E) segs"
  shows "\<exists>segsA segsB skipped gap.
           segs = segsA @ segsB \<and> flat segsA = skipped @ gap
           \<and> length skipped = min d (length (flat segs))
           \<and> list_all (\<lambda>l. \<not> str_includes l (writeStart E)) gap
           \<and> (0 < d \<and> segs \<noteq> [] \<longrightarrow> segsA \<noteq> [])"
  using assms
proof (induction segs arbitrary: d)
  case Nil
  have "[] = [] @ ([] :: seg list) \<and> flat [] = [] @ ([] :: string list)
        \<and> length ([] :: string list) = min d (length (flat []))
        \<and> list_all (\<lambda>l. \<not> str_includes l (writeStart E)) []
        \<and> (0 < d \<and> ([] :: seg list) \<noteq> [] \<longrightarrow> ([] :: seg list) \<noteq> [])"
    by (simp add: flat_def)
  then show ?case by blast
next
  case (Cons x xs)
  from Cons.prems have x: "write_seg E x" and xs: "list_all (write_seg E) xs" by simp_all
  consider (zero) "d = 0" | (inside) "0 < d" "d < length (seg_lines x)"
    | (beyond) "length (seg_lines x) \<le> d" "0 < d"
    by (cases "d = 0"; cases "d < length (seg_lines x)") auto
  then show ?case
  proof cases
    case zero
    have "x # xs = [] @ (x # xs) \<and> flat [] = [] @ ([] :: string list)
        \<and> length ([] :: string list) = min d (length (flat (x # xs)))
        \<and> list_all (\<lambda>l. \<not> str_includes l (writeStart E)) []
        \<and> (0 < d \<and> x # xs \<noteq> [] \<longrightarrow> ([] :: seg list) \<noteq> [])"
      using zero by (simp add: flat_def)
    then show ?thesis by blast
  next
    case inside
    have gap: "list_all (\<lambda>l. \<not> str_includes l (writeStart E)) (drop d (seg_lines x))"
    proof (cases x)
      case (Line l)
      with inside show ?thesis by simp
    next
      case (Block s ints e)
      from inside obtain d' where d': "d = Suc d'" by (cases d) auto
      have "list_all (\<lambda>l. \<not> str_includes l (writeStart E)) (ints @ [e])"
        using x Block by (auto simp: list_all_iff write_plain_def)
      then have "list_all (\<lambda>l. \<not> str_includes l (writeStart E)) (drop d' (ints @ [e]))"
        by (rule list_all_drop)
      with Block d' show ?thesis by simp
    qed
    have "x # xs = [x] @ xs \<and> flat [x] = take d (seg_lines x) @ drop d (seg_lines x)
        \<and> length (take d (seg_lines x)) = min d (length (flat (x # xs)))
        \<and> list_all (\<lambda>l. \<not> str_includes l (writeStart E)) (drop d (seg_lines x))
        \<and> (0 < d \<and> x # xs \<noteq> [] \<longrightarrow> [x] \<noteq> [])"
      using inside gap by (simp add: flat_def)
    then show ?thesis by blast
  next
    case beyond
    from Cons.IH [OF xs, of "d - length (seg_lines x)"]
    obtain segsA segsB skipped gap where ih:
      "xs = segsA @ segsB" "flat segsA = skipped @ gap"
      "length skipped = min (d - length (seg_lines x)) (length (flat xs))"
      "list_all (\<lambda>l. \<not> str_includes l (writeStart E)) gap"
      by blast
    have "x # xs = (x # segsA) @ segsB \<and> flat (x # segsA) = (seg_lines x @ skipped) @ gap
        \<and> length (seg_lines x @ skipped) = min d (length (flat (x # xs)))
        \<and> list_all (\<lambda>l. \<not> str_includes l (writeStart E)) gap
        \<and> (0 < d \<and> x # xs \<noteq> [] \<longrightarrow> x # segsA \<noteq> [])"
      using ih beyond by (simp add: flat_Cons)
    then show ?thesis by blast
  qed
qed

text \<open>From the start marker of a block of the Snippet's identifier to the splice.\<close>

lemma scan_block_splice:
  assumes s: "opens E snippet s cfg" "\<not> str_includes s (writeEnd E)"
    and ints: "list_all (\<lambda>l. passes E snippet l \<and> \<not> str_includes l (writeEnd E)) ints"
    and e: "str_includes e (writeEnd E)" "passes E snippet e"
  shows "scan_lines E feats snippet (length pre) st (pre @ s # ints @ e # post) =
         scan_lines E feats snippet (length pre + length ints + 2)
           \<lparr>lookForStop = False, spliceStart = Suc (length pre), config = cfg\<rparr>
           (pre @ s # rendering E feats snippet cfg @ e # post)"
proof -
  let ?fl = "pre @ s # ints @ e # post"
  let ?st1 = "\<lparr>lookForStop = True, spliceStart = Suc (length pre), config = cfg\<rparr>"
  have "scan_lines E feats snippet (length pre) st ?fl
          = scan_lines E feats snippet (Suc (length pre)) ?st1 ?fl"
    using s by (intro scan_lines_step_open) (simp_all add: nth_append)
  also have "\<dots> = scan_lines E feats snippet (length (pre @ [s]) + length ints) ?st1 ?fl"
  proof -
    have "list_all (\<lambda>l. passes E snippet l
            \<and> (lookForStop ?st1 \<longrightarrow> \<not> str_includes l (writeEnd E))) ints"
      using ints by (simp add: list_all_iff)
    from scan_lines_run [OF this, of feats "pre @ [s]" "e # post"]
    show ?thesis by simp
  qed
  also have "\<dots> = scan_lines E feats snippet (Suc (Suc (length pre + length ints)))
                     (?st1\<lparr>lookForStop := False\<rparr>)
                     (spliceFile E (spliceStart ?st1) (Suc (Suc (length pre + length ints)))
                        snippet ?fl (config_or_features (config ?st1) feats))"
  proof -
    have nth: "?fl ! (length (pre @ [s]) + length ints) = e"
      by (simp add: nth_append)
    have "scan_lines E feats snippet (length (pre @ [s]) + length ints) ?st1 ?fl =
          scan_lines E feats snippet (Suc (length (pre @ [s]) + length ints))
            (?st1\<lparr>lookForStop := False\<rparr>)
            (spliceFile E (spliceStart ?st1) (Suc (length (pre @ [s]) + length ints))
               snippet ?fl (config_or_features (config ?st1) feats))"
      using e by (intro scan_lines_step_close) (simp_all only: nth, simp_all)
    then show ?thesis by simp
  qed
  also have "\<dots> = scan_lines E feats snippet (length pre + length ints + 2)
                     \<lparr>lookForStop = False, spliceStart = Suc (length pre), config = cfg\<rparr>
                     (pre @ s # rendering E feats snippet cfg @ e # post)"
    by (simp add: spliceFile_block rendering_def)
  finally show ?thesis .
qed

text \<open>
  One scan over a well-formed file, for a Snippet whose renderings have no write token,
  started anywhere before a region boundary: it returns, and every region is as it was
  or is a block of the Snippet's identifier with the rendering as its interior.
\<close>

lemma scan_wf:
  assumes rend: "\<And>cfg. list_all (write_plain E) (rendering E feats snippet cfg)"
  shows "list_all (write_seg E) segs \<Longrightarrow>
         list_all (\<lambda>l. \<not> str_includes l (writeStart E)) gap \<Longrightarrow> \<not> lookForStop st \<Longrightarrow>
         \<exists>segs'. scan_lines E feats snippet (length pre) st (pre @ gap @ flat segs)
                    = Some (Inr (pre @ gap @ flat segs'))
                  \<and> list_all2 (spliced_seg E feats snippet) segs segs'"
proof (induction "length segs" arbitrary: segs pre gap st rule: less_induct)
  case less
  let ?P = "pre @ gap"
  have "list_all (\<lambda>l. passes E snippet l
          \<and> (lookForStop st \<longrightarrow> \<not> str_includes l (writeEnd E))) gap"
    using less.prems(2,3) by (simp add: list_all_iff no_start_passes)
  from scan_lines_run [OF this, of feats pre "flat segs"]
  have run: "scan_lines E feats snippet (length pre) st (pre @ gap @ flat segs)
               = scan_lines E feats snippet (length ?P) st (?P @ flat segs)"
    by simp
  show ?case
  proof (cases segs)
    case Nil
    then have "scan_lines E feats snippet (length pre) st (pre @ gap @ flat segs)
                 = Some (Inr (pre @ gap @ flat []))"
      using run by (simp add: flat_def scan_lines_done)
    with Nil show ?thesis by auto
  next
    case (Cons x segs1)
    from less.prems(1) Cons have x: "write_seg E x" and wf1: "list_all (write_seg E) segs1"
      by simp_all
    have len1: "length segs1 < length segs" using Cons by simp
    show ?thesis
    proof (cases x)
      case (Line l)
      with x have "list_all (\<lambda>l. \<not> str_includes l (writeStart E)) [l]" by simp
      from less.hyps [OF len1 wf1 this less.prems(3), of ?P]
      obtain segs1' where 1: "scan_lines E feats snippet (length ?P) st (?P @ [l] @ flat segs1)
            = Some (Inr (?P @ [l] @ flat segs1'))"
        and 2: "list_all2 (spliced_seg E feats snippet) segs1 segs1'" by blast
      from 1 run Cons Line
      have "scan_lines E feats snippet (length pre) st (pre @ gap @ flat segs)
              = Some (Inr (pre @ gap @ flat (Line l # segs1')))"
        by (simp add: flat_Cons)
      moreover from 2 Cons Line
      have "list_all2 (spliced_seg E feats snippet) segs (Line l # segs1')" by simp
      ultimately show ?thesis by blast
    next
      case (Block s ints e)
      from x Block have s_end: "\<not> str_includes s (writeEnd E)"
        and ints: "list_all (write_plain E) ints"
        and e_end: "str_includes e (writeEnd E)" and e_start: "\<not> str_includes e (writeStart E)"
        by simp_all
      have fl: "?P @ flat segs = ?P @ s # ints @ e # flat segs1"
        using Cons Block by (simp add: flat_Cons)
      from write_seg_start [of E s ints e snippet] x Block
      consider (other) "write_id E s \<noteq> Some (snippet_id snippet)" "passes E snippet s"
        | (mine) "write_id E s = Some (snippet_id snippet)"
                 "opens E snippet s (write_config E s)"
        by blast
      then show ?thesis
      proof cases
        case other
        have "scan_lines E feats snippet (length ?P) st (?P @ s # ints @ e # flat segs1)
                = scan_lines E feats snippet (Suc (length ?P)) st (?P @ s # ints @ e # flat segs1)"
          using other(2) s_end less.prems(3)
          by (intro scan_lines_step_pass) (simp_all add: nth_append)
        then have step: "scan_lines E feats snippet (length pre) st (pre @ gap @ flat segs)
                = scan_lines E feats snippet (length (?P @ [s])) st
                    ((?P @ [s]) @ (ints @ [e]) @ flat segs1)"
          using run fl by simp
        have "list_all (\<lambda>l. \<not> str_includes l (writeStart E)) (ints @ [e])"
          using ints e_start by (simp add: list_all_iff write_plain_def)
        from less.hyps [OF len1 wf1 this less.prems(3), of "?P @ [s]"]
        obtain segs1' where 1: "scan_lines E feats snippet (length (?P @ [s])) st
              ((?P @ [s]) @ (ints @ [e]) @ flat segs1)
            = Some (Inr ((?P @ [s]) @ (ints @ [e]) @ flat segs1'))"
          and 2: "list_all2 (spliced_seg E feats snippet) segs1 segs1'" by blast
        from 1 step have "scan_lines E feats snippet (length pre) st (pre @ gap @ flat segs)
              = Some (Inr (pre @ gap @ flat (Block s ints e # segs1')))"
          by (simp add: flat_Cons)
        moreover from 2 Cons Block
        have "list_all2 (spliced_seg E feats snippet) segs (Block s ints e # segs1')" by simp
        ultimately show ?thesis by blast
      next
        case mine
        let ?R = "rendering E feats snippet (write_config E s)"
        let ?st2 = "\<lparr>lookForStop = False, spliceStart = Suc (length ?P),
                     config = write_config E s\<rparr>"
        let ?W = "Block s ?R e # segs1"
        let ?k = "length ints + 2"
        have "list_all (\<lambda>l. passes E snippet l \<and> \<not> str_includes l (writeEnd E)) ints"
          using ints by (simp add: list_all_iff write_plain_passes write_plain_def)
        from scan_block_splice [OF mine(2) s_end this e_end no_start_passes [OF e_start],
            of feats ?P st "flat segs1"]
        have step: "scan_lines E feats snippet (length pre) st (pre @ gap @ flat segs)
               = scan_lines E feats snippet (length ?P + ?k) ?st2 (?P @ flat ?W)"
          using run fl by (simp add: flat_Cons)
        have wfW: "list_all (write_seg E) ?W"
          using x Block wf1 rend by simp
        have relW: "list_all2 (spliced_seg E feats snippet) segs ?W"
          using Cons Block mine(1) by (simp add: list_all2_spliced_refl)
        from drop_flat [OF wfW, of ?k]
        obtain segsA segsB skipped tl2 where d:
          "?W = segsA @ segsB" "flat segsA = skipped @ tl2"
          "length skipped = min ?k (length (flat ?W))"
          "list_all (\<lambda>l. \<not> str_includes l (writeStart E)) tl2"
          "segsA \<noteq> []"
          by auto
        show ?thesis
        proof (cases "?k \<le> length (flat ?W)")
          case False
          then have "scan_lines E feats snippet (length ?P + ?k) ?st2 (?P @ flat ?W)
                       = Some (Inr (?P @ flat ?W))"
            by (intro scan_lines_done) simp
          with step relW show ?thesis by auto
        next
          case True
          with d(3) have lsk: "length skipped = ?k" by simp
          from d(1,5) obtain segsA' where A: "segsA = Block s ?R e # segsA'"
            and s1: "segs1 = segsA' @ segsB"
            by (cases segsA) auto
          have lenB: "length segsB < length segs" using Cons s1 by simp
          have wfB: "list_all (write_seg E) segsB" using wf1 s1 by simp
          have arr: "?P @ flat ?W = (?P @ skipped) @ tl2 @ flat segsB"
            using d(1,2) by (simp add: flat_append)
          have "\<not> lookForStop ?st2" by simp
          from less.hyps [OF lenB wfB d(4) this, of "?P @ skipped"]
          obtain segsB' where 1: "scan_lines E feats snippet (length (?P @ skipped)) ?st2
                ((?P @ skipped) @ tl2 @ flat segsB)
              = Some (Inr ((?P @ skipped) @ tl2 @ flat segsB'))"
            and 2: "list_all2 (spliced_seg E feats snippet) segsB segsB'" by blast
          have "scan_lines E feats snippet (length pre) st (pre @ gap @ flat segs)
                  = Some (Inr ((?P @ skipped) @ tl2 @ flat segsB'))"
            using step arr 1 lsk by (simp add: ac_simps)
          also have "(?P @ skipped) @ tl2 @ flat segsB' = pre @ gap @ flat (segsA @ segsB')"
            using d(2) by (simp add: flat_append)
          finally have res: "scan_lines E feats snippet (length pre) st (pre @ gap @ flat segs)
                  = Some (Inr (pre @ gap @ flat (segsA @ segsB')))" .
          have "list_all2 (spliced_seg E feats snippet)
                  (Block s ints e # segsA' @ segsB) (Block s ?R e # segsA' @ segsB')"
            using mine(1) 2 by (simp add: list_all2_appendI list_all2_spliced_refl)
          then have "list_all2 (spliced_seg E feats snippet) segs (segsA @ segsB')"
            using Cons Block s1 A by simp
          with res show ?thesis by blast
        qed
      qed
    qed
  qed
qed

section \<open>Blocks no Snippet matches\<close>

lemma plain_snippet_rendering:
  "plain_snippet E snippet \<Longrightarrow> list_all (write_plain E) (rendering E feats snippet cfg)"
  by (cases "config_enable_source_link (config_or_features cfg feats)")
     (simp_all add: plain_snippet_def rendering_def)

lemma getSplicedFile_wf:
  assumes "plain_snippet E snippet" and "file_regions E file segs"
  shows "\<exists>segs'. getSplicedFile E feats snippet file = Some (Inr (with_regions file segs'))
                 \<and> list_all2 (spliced_seg E feats snippet) segs segs'"
proof -
  let ?st = "\<lparr>lookForStop = False, spliceStart = 0, config = None\<rparr>"
  have "\<exists>segs'. scan_lines E feats snippet (length ([] :: string list)) ?st ([] @ [] @ flat segs)
                    = Some (Inr ([] @ [] @ flat segs'))
                  \<and> list_all2 (spliced_seg E feats snippet) segs segs'"
    using assms by (intro scan_wf plain_snippet_rendering) (simp_all add: file_regions_def)
  then obtain segs' where "scan_lines E feats snippet 0 ?st (flat segs) = Some (Inr (flat segs'))"
    and "list_all2 (spliced_seg E feats snippet) segs segs'" by auto
  with assms(2) show ?thesis
    by (auto simp: getSplicedFile_def file_regions_def with_regions_def)
qed

lemma spliced_seg_write_seg:
  assumes "plain_snippet E snippet" and "write_seg E x" and "spliced_seg E feats snippet x y"
  shows "write_seg E y"
proof (cases x)
  case (Line l)
  with assms show ?thesis by simp
next
  case (Block s ints e)
  with assms plain_snippet_rendering [OF assms(1), of feats "write_config E s"]
  show ?thesis by auto
qed

lemma spliced_seg_same_frame:
  "spliced_seg E feats snippet x y \<Longrightarrow> same_frame E {snippet_id snippet} x y"
  by (cases x) auto

lemma same_frame_trans:
  "same_frame E ids1 x y \<Longrightarrow> same_frame E ids2 y z \<Longrightarrow> same_frame E (ids1 \<union> ids2) x z"
  by (cases x; cases y; cases z) auto

lemma same_frame_refl: "same_frame E ids x x"
  by (cases x) simp_all

lemma splice_files_wf:
  assumes "plain_snippet E snippet"
  shows "list_all2 (file_regions E) files segss \<Longrightarrow>
         \<exists>segss'. splice_files E feats snippet files = Some (Inr (map2 with_regions files segss'))
                   \<and> list_all2 (list_all2 (spliced_seg E feats snippet)) segss segss'"
proof (induction files segss rule: list_all2_induct)
  case Nil
  have "splice_files E feats snippet [] = Some (Inr (map2 with_regions [] []))
        \<and> list_all2 (list_all2 (spliced_seg E feats snippet)) [] []" by simp
  then show ?case by blast
next
  case (Cons f files segs segss)
  from getSplicedFile_wf [OF assms Cons.hyps(1), of feats]
  obtain segs' where 1: "getSplicedFile E feats snippet f = Some (Inr (with_regions f segs'))"
    and 2: "list_all2 (spliced_seg E feats snippet) segs segs'" by blast
  from Cons.IH obtain segss'
    where 3: "splice_files E feats snippet files = Some (Inr (map2 with_regions files segss'))"
    and 4: "list_all2 (list_all2 (spliced_seg E feats snippet)) segss segss'" by blast
  have "splice_files E feats snippet (f # files)
          = Some (Inr (map2 with_regions (f # files) (segs' # segss')))"
    using 1 3 by simp
  moreover have "list_all2 (list_all2 (spliced_seg E feats snippet)) (segs # segss) (segs' # segss')"
    using 2 4 by simp
  ultimately show ?case by blast
qed

lemma map2_with_regions_twice:
  "length files = length segss1 \<Longrightarrow> length segss1 = length segss2 \<Longrightarrow>
     map2 with_regions (map2 with_regions files segss1) segss2 = map2 with_regions files segss2"
proof (induction files segss1 segss2 rule: list_induct3)
  case Nil
  then show ?case by simp
next
  case (Cons f files a as b bs)
  then show ?case by (simp add: with_regions_def)
qed

lemma file_regions_after:
  assumes "plain_snippet E snippet"
    and "list_all2 (file_regions E) files segss"
    and "list_all2 (list_all2 (spliced_seg E feats snippet)) segss segss'"
  shows "list_all2 (file_regions E) (map2 with_regions files segss') segss'"
proof -
  have len: "length files = length segss" "length segss = length segss'"
    using assms(2,3) by (simp_all add: list_all2_lengthD)
  show ?thesis
  proof (rule list_all2_all_nthI)
    show "length (map2 with_regions files segss') = length segss'" using len by simp
  next
    fix n assume "n < length (map2 with_regions files segss')"
    then have n: "n < length files" "n < length segss" "n < length segss'" using len by simp_all
    have wf: "list_all (write_seg E) (segss ! n)"
      using assms(2) n by (auto simp: list_all2_conv_all_nth file_regions_def)
    have rel: "list_all2 (spliced_seg E feats snippet) (segss ! n) (segss' ! n)"
      using assms(3) n by (simp add: list_all2_conv_all_nth)
    have "list_all (write_seg E) (segss' ! n)"
      unfolding list_all_length
    proof (intro allI impI)
      fix k assume k: "k < length (segss' ! n)"
      with rel have k': "k < length (segss ! n)" by (simp add: list_all2_lengthD)
      from wf k' have "write_seg E (segss ! n ! k)" by (simp add: list_all_length)
      moreover from rel k' have "spliced_seg E feats snippet (segss ! n ! k) (segss' ! n ! k)"
        by (simp add: list_all2_conv_all_nth)
      ultimately show "write_seg E (segss' ! n ! k)"
        using spliced_seg_write_seg [OF assms(1)] by blast
    qed
    then show "file_regions E (map2 with_regions files segss' ! n) (segss' ! n)"
      using n by (simp add: file_regions_def with_regions_def)
  qed
qed

lemma spliceSnippets_wf:
  "list_all (plain_snippet E) snippets \<Longrightarrow> list_all2 (file_regions E) files segss \<Longrightarrow>
   \<exists>segss'. spliceSnippets E feats snippets files = Some (Inr (map2 with_regions files segss'))
             \<and> list_all2 (list_all2 (same_frame E (snippet_id ` set snippets))) segss segss'"
proof (induction snippets arbitrary: files segss)
  case Nil
  have len: "length files = length segss" using Nil.prems(2) by (rule list_all2_lengthD)
  have "map2 with_regions files segss = files"
  proof (rule nth_equalityI)
    show "length (map2 with_regions files segss) = length files" using len by simp
  next
    fix i assume "i < length (map2 with_regions files segss)"
    then have i: "i < length files" "i < length segss" using len by simp_all
    with Nil.prems(2) have "file_lines (files ! i) = flat (segss ! i)"
      by (simp add: list_all2_conv_all_nth file_regions_def)
    with i show "map2 with_regions files segss ! i = files ! i"
      by (simp add: with_regions_def)
  qed
  moreover have "list_all2 (list_all2 (same_frame E (snippet_id ` set []))) segss segss"
    by (simp add: list_all2_refl same_frame_refl)
  ultimately have "spliceSnippets E feats [] files = Some (Inr (map2 with_regions files segss))
      \<and> list_all2 (list_all2 (same_frame E (snippet_id ` set []))) segss segss"
    by simp
  then show ?case by blast
next
  case (Cons snippet snippets)
  from Cons.prems(1) have plain: "plain_snippet E snippet"
    and plains: "list_all (plain_snippet E) snippets" by simp_all
  from splice_files_wf [OF plain Cons.prems(2), of feats]
  obtain segss1 where 1: "splice_files E feats snippet files
        = Some (Inr (map2 with_regions files segss1))"
    and 2: "list_all2 (list_all2 (spliced_seg E feats snippet)) segss segss1" by blast
  have regs1: "list_all2 (file_regions E) (map2 with_regions files segss1) segss1"
    using plain Cons.prems(2) 2 by (rule file_regions_after)
  from Cons.IH [OF plains regs1]
  obtain segss' where 3: "spliceSnippets E feats snippets (map2 with_regions files segss1)
        = Some (Inr (map2 with_regions (map2 with_regions files segss1) segss'))"
    and 4: "list_all2 (list_all2 (same_frame E (snippet_id ` set snippets))) segss1 segss'"
    by blast
  have len: "length files = length segss1" "length segss1 = length segss'"
    using Cons.prems(2) 2 4 by (simp_all add: list_all2_lengthD)
  have res: "spliceSnippets E feats (snippet # snippets) files
               = Some (Inr (map2 with_regions files segss'))"
    using 1 3 map2_with_regions_twice [OF len] by simp
  have step: "list_all2 (same_frame E (snippet_id ` set (snippet # snippets))) a c"
    if "list_all2 (spliced_seg E feats snippet) a b"
      and "list_all2 (same_frame E (snippet_id ` set snippets)) b c" for a b c
  proof -
    have "same_frame E (snippet_id ` set (snippet # snippets)) x z"
      if "spliced_seg E feats snippet x y" "same_frame E (snippet_id ` set snippets) y z"
      for x y z
      using same_frame_trans [OF spliced_seg_same_frame [OF that(1)] that(2)] by simp
    then show ?thesis using that list_all2_trans by blast
  qed
  have "list_all2 (list_all2 (same_frame E (snippet_id ` set (snippet # snippets)))) segss segss'"
    using list_all2_trans [of "list_all2 (spliced_seg E feats snippet)"
        "list_all2 (same_frame E (snippet_id ` set snippets))"
        "list_all2 (same_frame E (snippet_id ` set (snippet # snippets)))" segss segss1 segss']
      step 2 4 by blast
  with res show ?case by blast
qed

text \<open>
  C4. In well-formed target files, spliced with Snippets whose renderings have no write
  token, \<open>spliceSnippets\<close> returns (it neither fails nor runs on), every line outside the
  blocks and both marker lines of every block are as they were, and a block whose
  identifier is the identifier of no Snippet has its interior exactly as before.
\<close>

theorem unmatched_block_unchanged:
  assumes "list_all (plain_snippet E) snippets"
    and "list_all2 (file_regions E) files segss"
    and "n < length segss" and "k < length (segss ! n)"
    and "segss ! n ! k = Block s ints e"
    and "write_id E s \<notin> Some ` snippet_id ` set snippets"
  shows "\<exists>segss'. spliceSnippets E feats snippets files
                     = Some (Inr (map2 with_regions files segss'))
                  \<and> list_all2 (list_all2 (same_frame E (snippet_id ` set snippets))) segss segss'
                  \<and> segss' ! n ! k = Block s ints e"
proof -
  from spliceSnippets_wf [OF assms(1,2), of feats]
  obtain segss' where 1: "spliceSnippets E feats snippets files
        = Some (Inr (map2 with_regions files segss'))"
    and 2: "list_all2 (list_all2 (same_frame E (snippet_id ` set snippets))) segss segss'"
    by blast
  from 2 assms(3) have "list_all2 (same_frame E (snippet_id ` set snippets)) (segss ! n) (segss' ! n)"
    by (simp add: list_all2_conv_all_nth)
  with assms(4) have "same_frame E (snippet_id ` set snippets) (segss ! n ! k) (segss' ! n ! k)"
    by (simp add: list_all2_conv_all_nth)
  with assms(5,6) have "segss' ! n ! k = Block s ints e"
    by (auto split: seg.splits)
  with 1 2 show ?thesis by blast
qed

lemma sample_write_id_b: "write_id sample_common ''<!--SNIPSTART b-->'' = Some ''b''"
  by (simp add: write_id_def sample_write_b)

theorem unmatched_block_unchanged_witness:
  "\<exists>segs'. spliceSnippets sample_common sample_features [sample_snippet ''a'' [''x=1'']]
              [sample_file [''# Title'', ''<!--SNIPSTART a-->'', ''old'', ''<!--SNIPEND-->'',
                            ''<!--SNIPSTART b-->'', ''stale 1'', ''stale 2'', ''<!--SNIPEND-->'']]
            = Some (Inr [with_regions (sample_file
                [''# Title'', ''<!--SNIPSTART a-->'', ''old'', ''<!--SNIPEND-->'',
                 ''<!--SNIPSTART b-->'', ''stale 1'', ''stale 2'', ''<!--SNIPEND-->'']) segs'])
          \<and> segs' ! 2 = Block ''<!--SNIPSTART b-->'' [''stale 1'', ''stale 2''] ''<!--SNIPEND-->''"
proof -
  let ?segs = "[Line ''# Title'', Block ''<!--SNIPSTART a-->'' [''old''] ''<!--SNIPEND-->'',
                Block ''<!--SNIPSTART b-->'' [''stale 1'', ''stale 2''] ''<!--SNIPEND-->'']"
  let ?f = "sample_file [''# Title'', ''<!--SNIPSTART a-->'', ''old'', ''<!--SNIPEND-->'',
                         ''<!--SNIPSTART b-->'', ''stale 1'', ''stale 2'', ''<!--SNIPEND-->'']"
  have ws: "writeStart sample_common = ''<!--SNIPSTART''" "writeEnd sample_common = ''<!--SNIPEND''"
    by (simp_all add: sample_defs)
  have 1: "list_all (plain_snippet sample_common) [sample_snippet ''a'' [''x=1'']]"
    by (simp add: plain_snippet_def write_plain_def fmt_def fmt_call_def fmtSourceLink_def
          buildURL_def buildPath_def sample_defs)
  have 2: "list_all2 (file_regions sample_common) [?f] [?segs]"
    by (simp add: file_regions_def flat_def write_plain_def sample_write_a sample_write_b ws)
       (simp add: sample_file_def)
  have 3: "0 < length [?segs]" "2 < length ([?segs] ! 0)"
    "[?segs] ! 0 ! 2 = Block ''<!--SNIPSTART b-->'' [''stale 1'', ''stale 2''] ''<!--SNIPEND-->''"
    by simp_all
  have 4: "write_id sample_common ''<!--SNIPSTART b-->''
             \<notin> Some ` snippet_id ` set [sample_snippet ''a'' [''x=1'']]"
    by (simp add: sample_write_id_b) (simp add: sample_defs)
  from unmatched_block_unchanged [OF 1 2 3 4, of sample_features]
  obtain segss' where r: "spliceSnippets sample_common sample_features
        [sample_snippet ''a'' [''x=1'']] [?f] = Some (Inr (map2 with_regions [?f] segss'))"
    and l: "list_all2 (list_all2 (same_frame sample_common
              (snippet_id ` set [sample_snippet ''a'' [''x=1'']]))) [?segs] segss'"
    and b: "segss' ! 0 ! 2 = Block ''<!--SNIPSTART b-->'' [''stale 1'', ''stale 2''] ''<!--SNIPEND-->''"
    by blast
  from l obtain segs' where "segss' = [segs']"
    by (cases segss') (auto simp: list_all2_Cons1)
  with r b show ?thesis by auto
qed

section \<open>The JSON parser consumes its input\<close>

lemma skip_ws_length: "length (skip_ws s) \<le> length s"
  unfolding skip_ws_def by (rule length_dropWhile_le)

lemma json_chars_shorter: "json_chars s = Some (us, t) \<Longrightarrow> length t < length s"
proof (induction "length s" arbitrary: s us t rule: less_induct)
  case less
  have ih: "length t' < length s'" if "json_chars s' = Some (us', t')" "length s' < length s"
    for s' us' t'
    using less.hyps [OF that(2) that(1)] .
  from less.prems show ?case
    by (cases s) (auto split: if_splits list.splits option.splits dest!: ih)
qed

lemma json_number_shorter: "json_number s = Some (q, t) \<Longrightarrow> length t < length s"
proof -
  assume a: "json_number s = Some (q, t)"
  have dw: "length (dropWhile P xs) \<le> length xs" for P and xs :: string
    by (rule length_dropWhile_le)
  have ip: "length s2 < length s1" if "json_int_part s1 = Some (ds, s2)" for s1 ds s2
    using that dw [of is_digit "tl s1"]
    by (cases s1) (auto simp: json_int_part_def split: if_splits)
  have fp: "length s3 \<le> length s2" if "json_frac_part s2 = Some (fs, s3)" for s2 fs s3
    using that dw [of is_digit "tl s2"]
    by (cases s2) (auto simp: json_frac_part_def split: if_splits)
  have ep: "length s4 \<le> length s3" if "json_exp_part s3 = Some (ex, s4)" for s3 ex s4
  proof (cases s3)
    case Nil
    with that show ?thesis by (simp add: json_exp_part_def)
  next
    case (Cons c r)
    show ?thesis
    proof (cases r)
      case Nil
      with Cons that show ?thesis
        by (auto simp: json_exp_part_def Let_def split: if_splits)
    next
      case (Cons g r')
      with \<open>s3 = c # r\<close> that dw [of is_digit r] dw [of is_digit r'] show ?thesis
        by (auto simp: json_exp_part_def Let_def split: if_splits)
    qed
  qed
  from a show ?thesis
    by (cases s)
       (auto simp: json_number_def Let_def split: if_splits option.splits prod.splits
             dest!: ip fp ep)
qed

lemma skip_ws_Cons_length: "skip_ws r = d # r2 \<Longrightarrow> Suc (length r2) \<le> length r"
  using skip_ws_length [of r] by simp

lemma parse_shorter:
  "(\<forall>v t. parse_value s = Some (v, t) \<longrightarrow> length t < length s)
   \<and> (\<forall>vs t. parse_elements s = Some (vs, t) \<longrightarrow> length t < length s)
   \<and> (\<forall>ms t. parse_members s = Some (ms, t) \<longrightarrow> length t < length s)"
proof (induction "length s" arbitrary: s rule: less_induct)
  case less
  note parse_value.simps [simp del] parse_elements.simps [simp del]
    parse_members.simps [simp del]
  have ihV: "length t < length s'" if "parse_value s' = Some (v, t)" "length s' < length s"
    for s' v t using less [OF that(2)] that(1) by blast
  have ihE: "length t < length s'" if "parse_elements s' = Some (vs, t)" "length s' < length s"
    for s' vs t using less [OF that(2)] that(1) by blast
  have ihM: "length t < length s'" if "parse_members s' = Some (ms, t)" "length s' < length s"
    for s' ms t using less [OF that(2)] that(1) by blast
  have V: "length t < length s" if "parse_value s = Some (v, t)" for v t
  proof (cases s)
    case Nil
    with that show ?thesis by (subst (asm) parse_value.simps) simp
  next
    case (Cons ch r)
    have sub: "length t < length s" if "parse_members (d # r2) = Some (ms, t)"
      "skip_ws r = d # r2" for d r2 ms
      using ihM [OF that(1)] skip_ws_Cons_length [OF that(2)] Cons by simp
    have sub2: "length t < length s" if "parse_elements (d # r2) = Some (vs, t)"
      "skip_ws r = d # r2" for d r2 vs
      using ihE [OF that(1)] skip_ws_Cons_length [OF that(2)] Cons by simp
    have str: "length t < length s" if "json_chars r = Some (us, t)" for us
      using json_chars_shorter [OF that] Cons by simp
    have num: "length t < length s" if "json_number s = Some (q, t)" for q
      using json_number_shorter [OF that] .
    note unf = that [unfolded parse_value.simps [of s], unfolded Cons, simplified]
    have lit: "length (drop n s) < length s" if "0 < n" for n
      using that Cons by simp
    have emp: "length t < length s" if "skip_ws r = d # t" for d
      using skip_ws_Cons_length [OF that] Cons by simp
    from unf sub sub2 str num emp lit [of 4] lit [of 5] show ?thesis
      unfolding Cons [symmetric]
      by (auto split: if_splits list.splits)
  qed
  have E: "length t < length s" if "parse_elements s = Some (vs, t)" for vs t
  proof -
    note unf = that [unfolded parse_elements.simps [of s]]
    from unf obtain v t1 where v: "parse_value s = Some (v, t1)"
      by (auto split: option.splits)
    from V [OF v] have t1: "length t1 < length s" .
    from unf v obtain ch t2 where sk: "skip_ws t1 = ch # t2"
      by (auto split: list.splits)
    from skip_ws_Cons_length [OF sk] t1 have t2: "length t2 < length s" by simp
    from unf v sk consider "t = t2"
      | vs' where "parse_elements (skip_ws t2) = Some (vs', t)" "length (skip_ws t2) < length s"
      by (auto split: if_splits)
    then show ?thesis
    proof cases
      case 1
      with t2 show ?thesis by simp
    next
      case 2
      from ihE [OF 2] 2(2) show ?thesis by simp
    qed
  qed
  have M: "length t < length s" if "parse_members s = Some (ms, t)" for ms t
  proof -
    note unf = that [unfolded parse_members.simps [of s]]
    from unf obtain q r where s: "s = q # r" "q = CHR 0x22"
      by (auto split: list.splits if_splits)
    from unf s obtain k t1 where k: "json_chars r = Some (k, t1)"
      by (auto split: option.splits)
    from unf s k obtain col t2 where c: "skip_ws t1 = col # t2" "col = CHR '':''"
      "length (skip_ws t2) < length s"
      by (auto split: list.splits if_splits)
    from unf s k c obtain vl u where vl: "parse_value (skip_ws t2) = Some (vl, u)"
      by (auto split: option.splits)
    from ihV [OF vl c(3)] have u: "length u < length (skip_ws t2)" .
    from unf s k c vl obtain ch u2 where sk: "skip_ws u = ch # u2"
      by (auto split: list.splits)
    from unf s k c vl sk consider "t = u2"
      | ms' where "parse_members (skip_ws u2) = Some (ms', t)" "length (skip_ws u2) < length s"
      by (auto split: if_splits)
    then show ?thesis
    proof cases
      case 1
      with skip_ws_Cons_length [OF sk] u c(3) show ?thesis by simp
    next
      case 2
      from ihM [OF 2] 2(2) show ?thesis by simp
    qed
  qed
  from V E M show ?case by blast
qed


lemma parse_value_shorter: "parse_value s = Some (v, t) \<Longrightarrow> length t < length s"
  using parse_shorter by blast

text \<open>The length tests of \<open>parse_elements\<close> and \<open>parse_members\<close> never fail.\<close>

lemma parse_guards_hold:
  "parse_value s = Some (v, t) \<Longrightarrow> skip_ws t = ch # t2 \<Longrightarrow> length (skip_ws t2) < length s"
  "json_chars r = Some (k, t) \<Longrightarrow> skip_ws t = col # t3 \<Longrightarrow>
     length (skip_ws t3) < length (q # r)"
  "json_chars r = Some (k, t) \<Longrightarrow> skip_ws t = col # t3 \<Longrightarrow>
     parse_value (skip_ws t3) = Some (v', u) \<Longrightarrow> skip_ws u = ch' # u2 \<Longrightarrow>
     length (skip_ws u2) < length (q # r)"
proof -
  show "length (skip_ws t2) < length s" if "parse_value s = Some (v, t)" "skip_ws t = ch # t2"
    using parse_value_shorter [OF that(1)] skip_ws_Cons_length [OF that(2)] skip_ws_length [of t2]
    by simp
  show c: "length (skip_ws t3) < length (q # r)"
    if "json_chars r = Some (k, t)" "skip_ws t = col # t3"
    using json_chars_shorter [OF that(1)] skip_ws_Cons_length [OF that(2)] skip_ws_length [of t3]
    by simp
  show "length (skip_ws u2) < length (q # r)"
    if "json_chars r = Some (k, t)" "skip_ws t = col # t3"
      "parse_value (skip_ws t3) = Some (v', u)" "skip_ws u = ch' # u2"
    using c [OF that(1,2)] parse_value_shorter [OF that(3)] skip_ws_Cons_length [OF that(4)]
      skip_ws_length [of u2]
    by simp
qed

text \<open>
  The first group of \<open>readMatchRegexp\<close> takes part in every match: \<open>extractReadID\<close> never
  returns \<open>undefined\<close>, and the case of \<open>extract_line\<close> for it is never taken.
\<close>

lemma extractReadID_defined: "extractReadID E l \<noteq> Inr None"
proof
  assume a: "extractReadID E l = Inr None"
  then obtain m where m: "js_match (readMatchRegexp E) l = Some m" and none: "m 1 = None"
    by (cases "js_match (readMatchRegexp E) l") (simp_all add: extractReadID_def)
  from js_match_Some_elim [OF m] obtain p s'
    where "(s', m) \<in> set (rx_matches (readMatchRegexp E) (drop p l) (\<lambda>_. None))" by blast
  then have "m 1 \<noteq> None"
    by (auto simp: readMatchRegexp_def split: if_splits)
  with none show False by simp
qed

text \<open>
  Splicing again a file with one block of the Snippet's identifier, already spliced with
  that Snippet, changes nothing.
\<close>

lemma getSplicedFile_again_single_block:
  assumes "file_lines file = pre @ s # rendering E feats snippet cfg @ e # post"
    and "list_all (passes E snippet) pre"
    and "opens E snippet s cfg" and "\<not> str_includes s (writeEnd E)"
    and "list_all (\<lambda>l. passes E snippet l \<and> \<not> str_includes l (writeEnd E))
           (rendering E feats snippet cfg)"
    and "str_includes e (writeEnd E)" and "passes E snippet e"
    and "list_all (passes E snippet) post"
  shows "getSplicedFile E feats snippet file = Some (Inr file)"
proof -
  have "list_all (passes E snippet) (rendering E feats snippet cfg)"
    using assms(5) by (simp add: list_all_iff)
  from getSplicedFile_single_block [OF assms(1-8) this]
  show ?thesis using assms(1) by simp
qed


end
